theory Spec2Isabelle
  imports Main "HOL-Library.Word"
begin

section \<open>The fixed-size tuple of openvdb/math/Tuple.h\<close>

subsection \<open>Integer types of the loop counters\<close>

text \<open>
  The template parameter \<open>SIZE\<close> is an \<open>int\<close>. The loops of the header count with
  \<open>int\<close>, \<open>unsigned\<close> and \<open>size_t\<close> counters and compare them with \<open>SIZE\<close>, which
  converts \<open>SIZE\<close> (or \<open>SIZE - 1\<close>) to the counter's type. The conversions are written
  out for a 32-bit \<open>int\<close> and \<open>unsigned\<close> and a 64-bit \<open>size_t\<close>.
\<close>

definition INT_MAX :: int where
  "INT_MAX = 2 ^ 31 - 1"

definition to_unsigned :: "int \<Rightarrow> int" where
  "to_unsigned x = x mod 2 ^ 32"

definition to_size_t :: "int \<Rightarrow> int" where
  "to_size_t x = x mod 2 ^ 64"

definition to_int :: "int \<Rightarrow> int" where
  "to_int x = (x + 2 ^ 31) mod 2 ^ 32 - 2 ^ 31"

subsection \<open>Storage and indexed access\<close>

text \<open>
  \<open>class Tuple\<close> has one data member, the array \<open>T mm[SIZE]\<close>. The array of a
  \<open>Tuple<SIZE, T>\<close> has exactly \<open>SIZE\<close> elements, and \<open>SIZE\<close> is a positive \<open>int\<close>
  (an array of no elements is not a type of the language).
\<close>

record 'a Tuple =
  mm :: "'a list"

definition Tuple_inv :: "int \<Rightarrow> 'a Tuple \<Rightarrow> bool" where
  "Tuple_inv SIZE t \<longleftrightarrow> 0 < SIZE \<and> SIZE \<le> INT_MAX \<and> int (length (mm t)) = SIZE"

text \<open>
  \<open>T operator[](int i) const { return mm[i]; }\<close>. The assertion on the index is
  commented out in the source, so an index outside \<open>0 .. SIZE-1\<close> is undefined
  behaviour: the model returns \<open>None\<close> there.
\<close>

definition Tuple_index :: "'a Tuple \<Rightarrow> int \<Rightarrow> 'a option" where
  "Tuple_index t i =
     (if 0 \<le> i \<and> i < int (length (mm t)) then Some (mm t ! nat i) else None)"

text \<open>
  \<open>T& operator[](int i) { return mm[i]; }\<close> followed by an assignment through the
  returned reference (\<open>t[i] = v\<close>, and \<open>mm[i] = v\<close> inside the class). Out of range
  it is undefined behaviour as well.
\<close>

definition Tuple_assign :: "'a Tuple \<Rightarrow> int \<Rightarrow> 'a \<Rightarrow> 'a Tuple option" where
  "Tuple_assign t i v =
     (if 0 \<le> i \<and> i < int (length (mm t)) then Some (t\<lparr>mm := (mm t)[nat i := v]\<rparr>) else None)"

subsection \<open>Conversion constructor\<close>

text \<open>
  \<open>explicit Tuple(Tuple<src_size, src_valtype> const &src)\<close>. The parameter \<open>conv\<close>
  is the implicit conversion from \<open>src_valtype\<close> to \<open>T\<close>; \<open>self\<close> is the object under
  construction, whose array holds indeterminate values when the body starts. The
  counters are \<open>int\<close>s below \<open>SIZE\<close>, so \<open>++i\<close> does not overflow.
\<close>

function conv_copy :: "('u \<Rightarrow> 't) \<Rightarrow> int \<Rightarrow> int \<Rightarrow> 'u Tuple \<Rightarrow> 't Tuple \<Rightarrow> 't Tuple option" where
  "conv_copy conv copyEnd i src self =
     (if i < copyEnd then
        (case Tuple_index src i of
           None \<Rightarrow> None
         | Some v \<Rightarrow>
             (case Tuple_assign self i (conv v) of
                None \<Rightarrow> None
              | Some self' \<Rightarrow> conv_copy conv copyEnd (i + 1) src self'))
      else Some self)"
  by pat_completeness auto
termination
  by (relation "measure (\<lambda>(conv, copyEnd, i, src, self). nat (copyEnd - i))") auto

function conv_zero :: "int \<Rightarrow> int \<Rightarrow> ('t::zero) Tuple \<Rightarrow> 't Tuple option" where
  "conv_zero SIZE i self =
     (if i < SIZE then
        (case Tuple_assign self i 0 of
           None \<Rightarrow> None
         | Some self' \<Rightarrow> conv_zero SIZE (i + 1) self')
      else Some self)"
  by pat_completeness auto
termination
  by (relation "measure (\<lambda>(SIZE, i, self). nat (SIZE - i))") auto

declare conv_copy.simps [simp del] conv_zero.simps [simp del]

definition Tuple_convert ::
  "('u \<Rightarrow> 't) \<Rightarrow> int \<Rightarrow> int \<Rightarrow> 'u Tuple \<Rightarrow> ('t::zero) Tuple \<Rightarrow> 't Tuple option" where
  "Tuple_convert conv SIZE src_size src self =
     (let copyEnd = (if SIZE < src_size then SIZE else src_size) in
      case conv_copy conv copyEnd 0 src self of
        None \<Rightarrow> None
      | Some self' \<Rightarrow> conv_zero SIZE copyEnd self')"

subsection \<open>Streams of the standard library\<close>

text \<open>
  The state of a stream (\<open>std::ios\<close>) is the set of its state flags and its
  exception mask. \<open>setstate\<close> adds flags and then throws \<open>std::ios_base::failure\<close>
  when a flag of the state is in the exception mask. A call on a stream either
  returns or is left by this exception; the stream (and what else the call changed)
  exists afterwards in both cases.
\<close>

datatype iostate = eofbit | failbit | badbit

datatype 's completion = is_Returned: Returned (state_of: 's) | Thrown (state_of: 's)

record ios =
  rdstate :: "iostate set"
  exceptions :: "iostate set"

definition setstate :: "iostate set \<Rightarrow> 'a ios_scheme \<Rightarrow> 'a ios_scheme completion" where
  "setstate flags s =
     (let s' = s\<lparr>rdstate := rdstate s \<union> flags\<rparr>
      in if rdstate s' \<inter> exceptions s' = {} then Returned s' else Thrown s')"

text \<open>
  An output stream: the characters written to it so far and the format state that
  the insertion of a string reads (field width, fill character, adjustment to the
  left). \<open>os << s\<close> for a \<open>std::string\<close> is a formatted output function: on a stream
  that is not good the sentry fails and nothing is written (\<open>failbit\<close> is set, as
  the standard allows); on a good stream the string is written, padded with the
  fill character to the field width when it is shorter, and the width is reset
  to 0.
\<close>

record ostream = ios +
  written :: string
  os_width :: nat
  os_fill :: char
  os_left :: bool

definition ostream_insert_string :: "ostream \<Rightarrow> string \<Rightarrow> ostream completion" where
  "ostream_insert_string os s =
     (if rdstate os \<noteq> {} then setstate {failbit} os
      else
        (let pad = replicate (os_width os - length s) (os_fill os)
         in Returned (os\<lparr>written := written os @ (if os_left os then s @ pad else pad @ s),
                          os_width := 0\<rparr>)))"

text \<open>
  An input stream: its state and the characters not yet read. \<open>is.read(s, n)\<close> is an
  unformatted input function: on a stream that is not good the sentry sets
  \<open>failbit\<close> and no character is extracted; otherwise \<open>n\<close> characters are extracted
  and stored, or all that are left when they are fewer, and then \<open>eofbit\<close> and
  \<open>failbit\<close> are set. The first component of the result is the characters stored.
\<close>

record istream = ios +
  unread :: "char list"

definition istream_read :: "istream \<Rightarrow> nat \<Rightarrow> char list \<times> istream completion" where
  "istream_read inp n =
     (if rdstate inp \<noteq> {} then ([], setstate {failbit} inp)
      else if n \<le> length (unread inp) then
        (take n (unread inp), Returned (inp\<lparr>unread := drop n (unread inp)\<rparr>))
      else (unread inp, setstate {eofbit, failbit} (inp\<lparr>unread := []\<rparr>)))"

subsection \<open>String representation\<close>

text \<open>
  \<open>std::string str() const\<close>. The \<open>ostringstream\<close> is the string written so far;
  \<open>fmt\<close> is the stream insertion \<open>buffer << mm[j]\<close> of the element type. The counter
  \<open>j\<close> is \<open>unsigned\<close>, so \<open>j < SIZE\<close> compares it with \<open>SIZE\<close> converted to
  \<open>unsigned\<close>; \<open>j++\<close> does not wrap below that bound. \<open>mm[j]\<close> indexes the array
  with \<open>j\<close> itself.
\<close>

function str_loop :: "('a \<Rightarrow> string) \<Rightarrow> int \<Rightarrow> int \<Rightarrow> 'a Tuple \<Rightarrow> string \<Rightarrow> string option" where
  "str_loop fmt SIZE j t buffer =
     (if j < to_unsigned SIZE then
        (case Tuple_index t j of
           None \<Rightarrow> None
         | Some v \<Rightarrow>
             str_loop fmt SIZE (j + 1) t ((if j \<noteq> 0 then buffer @ '', '' else buffer) @ fmt v))
      else Some buffer)"
  by pat_completeness auto
termination
  by (relation "measure (\<lambda>(fmt, SIZE, j, t, buffer). nat (to_unsigned SIZE - j))") auto

declare str_loop.simps [simp del]

definition Tuple_str :: "('a \<Rightarrow> string) \<Rightarrow> int \<Rightarrow> 'a Tuple \<Rightarrow> string option" where
  "Tuple_str fmt SIZE t =
     (case str_loop fmt SIZE 0 t ''['' of
        None \<Rightarrow> None
      | Some buffer \<Rightarrow> Some (buffer @ '']''))"

text \<open>
  \<open>std::ostream& operator<<(std::ostream& ostr, const Tuple<SIZE, T>& classname)\<close>:
  \<open>ostr << classname.str(); return ostr;\<close>. The string is inserted by the formatted
  output function of the stream, and an exception of the stream is not caught.
\<close>

definition Tuple_ostream_insert ::
  "('a \<Rightarrow> string) \<Rightarrow> int \<Rightarrow> ostream \<Rightarrow> 'a Tuple \<Rightarrow> ostream completion option" where
  "Tuple_ostream_insert fmt SIZE ostr classname =
     (case Tuple_str fmt SIZE classname of
        None \<Rightarrow> None
      | Some s \<Rightarrow> Some (ostream_insert_string ostr s))"

subsection \<open>Ordering\<close>

text \<open>
  \<open>operator<\<close> and \<open>operator>\<close> on two tuples of the same \<open>SIZE\<close> with element types
  \<open>T0\<close> and \<open>T1\<close>. \<open>isExactlyEqual\<close> is declared in \<open>Math.h\<close>, not in this
  header; it and the element comparisons \<open>t0[i] < t1[i]\<close>,
  \<open>t0[i] > t1[i]\<close> are parameters. The counter is a \<open>size_t\<close>, so the loop bound
  \<open>SIZE-1\<close> is converted to \<open>size_t\<close>, and \<open>operator[]\<close> converts the counter back
  to \<open>int\<close>. The statement after the loop is the exit branch of the recursion.
\<close>

function less_loop ::
  "('a \<Rightarrow> 'b \<Rightarrow> bool) \<Rightarrow> ('a \<Rightarrow> 'b \<Rightarrow> bool) \<Rightarrow> int \<Rightarrow> int \<Rightarrow> 'a Tuple \<Rightarrow> 'b Tuple \<Rightarrow> bool option" where
  "less_loop isExactlyEqual lt SIZE i t0 t1 =
     (if i < to_size_t (SIZE - 1) then
        (case (Tuple_index t0 (to_int i), Tuple_index t1 (to_int i)) of
           (Some a, Some b) \<Rightarrow>
             if \<not> isExactlyEqual a b then Some (lt a b)
             else less_loop isExactlyEqual lt SIZE (i + 1) t0 t1
         | _ \<Rightarrow> None)
      else
        (case (Tuple_index t0 (SIZE - 1), Tuple_index t1 (SIZE - 1)) of
           (Some a, Some b) \<Rightarrow> Some (lt a b)
         | _ \<Rightarrow> None))"
  by pat_completeness auto
termination
  by (relation "measure (\<lambda>(isExactlyEqual, lt, SIZE, i, t0, t1). nat (to_size_t (SIZE - 1) - i))") auto

declare less_loop.simps [simp del]

definition operator_less ::
  "('a \<Rightarrow> 'b \<Rightarrow> bool) \<Rightarrow> ('a \<Rightarrow> 'b \<Rightarrow> bool) \<Rightarrow> int \<Rightarrow> 'a Tuple \<Rightarrow> 'b Tuple \<Rightarrow> bool option" where
  "operator_less isExactlyEqual lt SIZE t0 t1 = less_loop isExactlyEqual lt SIZE 0 t0 t1"

function greater_loop ::
  "('a \<Rightarrow> 'b \<Rightarrow> bool) \<Rightarrow> ('a \<Rightarrow> 'b \<Rightarrow> bool) \<Rightarrow> int \<Rightarrow> int \<Rightarrow> 'a Tuple \<Rightarrow> 'b Tuple \<Rightarrow> bool option" where
  "greater_loop isExactlyEqual gt SIZE i t0 t1 =
     (if i < to_size_t (SIZE - 1) then
        (case (Tuple_index t0 (to_int i), Tuple_index t1 (to_int i)) of
           (Some a, Some b) \<Rightarrow>
             if \<not> isExactlyEqual a b then Some (gt a b)
             else greater_loop isExactlyEqual gt SIZE (i + 1) t0 t1
         | _ \<Rightarrow> None)
      else
        (case (Tuple_index t0 (SIZE - 1), Tuple_index t1 (SIZE - 1)) of
           (Some a, Some b) \<Rightarrow> Some (gt a b)
         | _ \<Rightarrow> None))"
  by pat_completeness auto
termination
  by (relation "measure (\<lambda>(isExactlyEqual, gt, SIZE, i, t0, t1). nat (to_size_t (SIZE - 1) - i))") auto

declare greater_loop.simps [simp del]

definition operator_greater ::
  "('a \<Rightarrow> 'b \<Rightarrow> bool) \<Rightarrow> ('a \<Rightarrow> 'b \<Rightarrow> bool) \<Rightarrow> int \<Rightarrow> 'a Tuple \<Rightarrow> 'b Tuple \<Rightarrow> bool option" where
  "operator_greater isExactlyEqual gt SIZE t0 t1 = greater_loop isExactlyEqual gt SIZE 0 t0 t1"

subsection \<open>Absolute value\<close>





subsection \<open>Binary serialization\<close>

text \<open>
  \<open>write\<close> and \<open>read\<close> pass the address of \<open>mm\<close>, cast to \<open>char*\<close>, and the byte
  count \<open>sizeof(T)*SIZE\<close> to the stream. The object representation of the element
  type is a parameter: \<open>sizeofT\<close> bytes per element, \<open>to_bytes\<close> from a value to its
  bytes in memory and \<open>from_bytes\<close> from bytes in memory to the value they hold.
  The bytes of the array are those of its elements in index order.
\<close>

definition object_repr :: "nat \<Rightarrow> ('a \<Rightarrow> char list) \<Rightarrow> (char list \<Rightarrow> 'a) \<Rightarrow> bool" where
  "object_repr sizeofT to_bytes from_bytes \<longleftrightarrow>
     0 < sizeofT \<and> (\<forall>x. length (to_bytes x) = sizeofT \<and> from_bytes (to_bytes x) = x)"

definition object_bytes :: "('a \<Rightarrow> char list) \<Rightarrow> 'a Tuple \<Rightarrow> char list" where
  "object_bytes to_bytes t = concat (map to_bytes (mm t))"

definition store_bytes :: "(char list \<Rightarrow> 'a) \<Rightarrow> nat \<Rightarrow> int \<Rightarrow> char list \<Rightarrow> 'a Tuple" where
  "store_bytes from_bytes sizeofT SIZE bs =
     \<lparr>mm = map (\<lambda>k. from_bytes (take sizeofT (drop (k * sizeofT) bs))) [0..<nat SIZE]\<rparr>"

text \<open>
  \<open>void write(std::ostream& os) const\<close>: \<open>os.write(s, n)\<close> on a good stream appends
  \<open>n\<close> characters to the characters written so far, and \<open>write\<close> is modelled on
  these characters.
\<close>

definition ostream_write :: "string \<Rightarrow> char list \<Rightarrow> nat \<Rightarrow> string" where
  "ostream_write os s n = os @ take n s"

definition Tuple_write :: "('a \<Rightarrow> char list) \<Rightarrow> nat \<Rightarrow> int \<Rightarrow> string \<Rightarrow> 'a Tuple \<Rightarrow> string" where
  "Tuple_write to_bytes sizeofT SIZE os t =
     ostream_write os (object_bytes to_bytes t) (sizeofT * nat SIZE)"

text \<open>
  \<open>void read(std::istream& is)\<close>. It looks neither at the state of the stream nor at
  the number of bytes transferred, and it has no handler for an exception of the
  stream. The bytes that the stream stores overwrite the front of the array's
  memory; the bytes behind them stay. This holds as well when the call is left by
  the exception.
\<close>

definition Tuple_read ::
  "('a \<Rightarrow> char list) \<Rightarrow> (char list \<Rightarrow> 'a) \<Rightarrow> nat \<Rightarrow> int \<Rightarrow> istream \<Rightarrow> 'a Tuple \<Rightarrow>
     ('a Tuple \<times> istream) completion" where
  "Tuple_read to_bytes from_bytes sizeofT SIZE inp t =
     (case istream_read inp (sizeofT * nat SIZE) of
        (got, c) \<Rightarrow>
          (let t' = store_bytes from_bytes sizeofT SIZE
                      (got @ drop (length got) (object_bytes to_bytes t))
           in case c of
                Returned inp' \<Rightarrow> Returned (t', inp')
              | Thrown inp' \<Rightarrow> Thrown (t', inp')))"

subsection \<open>The element type \<open>int\<close>\<close>

text \<open>
  The library operations the header applies to elements, for the element type
  \<open>int\<close> (32 bits, two's complement, least significant byte first in memory):
  the comparisons, \<open>::abs\<close>, the decimal stream insertion and the object
  representation. For \<open>INT_MIN\<close> the C library leaves the result of \<open>abs\<close> undefined;
  \<open>abs_int32\<close> has the value of the wrapping negation there.
\<close>

definition less_int32 :: "32 word \<Rightarrow> 32 word \<Rightarrow> bool" where
  "less_int32 x y \<longleftrightarrow> sint x < sint y"

definition greater_int32 :: "32 word \<Rightarrow> 32 word \<Rightarrow> bool" where
  "greater_int32 x y \<longleftrightarrow> sint x > sint y"



definition digit_char :: "nat \<Rightarrow> char" where
  "digit_char d = ''0123456789'' ! d"

fun dec_digits :: "nat \<Rightarrow> string" where
  "dec_digits n =
     (if n < 10 then [digit_char n] else dec_digits (n div 10) @ [digit_char (n mod 10)])"

declare dec_digits.simps [simp del]

definition fmt_int :: "int \<Rightarrow> string" where
  "fmt_int x = (if x < 0 then CHR ''-'' # dec_digits (nat (- x)) else dec_digits (nat x))"

definition fmt_int32 :: "32 word \<Rightarrow> string" where
  "fmt_int32 w = fmt_int (sint w)"

definition int32_to_bytes :: "32 word \<Rightarrow> char list" where
  "int32_to_bytes w =
     [char_of (uint w), char_of (uint w div 2 ^ 8), char_of (uint w div 2 ^ 16),
      char_of (uint w div 2 ^ 24)]"

definition int32_from_bytes :: "char list \<Rightarrow> 32 word" where
  "int32_from_bytes bs =
     word_of_int (of_char (bs ! 0) + 2 ^ 8 * of_char (bs ! 1) + 2 ^ 16 * of_char (bs ! 2)
                  + 2 ^ 24 * of_char (bs ! 3))"

subsection \<open>The element types \<open>short\<close> and \<open>double\<close>\<close>




subsection \<open>Reference functions of the specification\<close>

text \<open>
  The strings of a list in order, with a separator between neighbours.
\<close>

fun separated :: "'a list \<Rightarrow> 'a list list \<Rightarrow> 'a list" where
  "separated sep [] = []"
| "separated sep [x] = x"
| "separated sep (x # y # ys) = x @ sep @ separated sep (y # ys)"

text \<open>
  The lexicographic comparison: the comparison \<open>cmp\<close> at the first position before
  the last where the elements are not exactly equal, and at the last position when
  there is none.
\<close>

definition first_difference ::
  "('a \<Rightarrow> 'b \<Rightarrow> bool) \<Rightarrow> ('a \<Rightarrow> 'b \<Rightarrow> bool) \<Rightarrow> 'a list \<Rightarrow> 'b list \<Rightarrow> bool" where
  "first_difference eq cmp xs ys =
     (case find (\<lambda>k. \<not> eq (xs ! k) (ys ! k)) [0..<length xs - 1] of
        Some k \<Rightarrow> cmp (xs ! k) (ys ! k)
      | None \<Rightarrow> cmp (xs ! (length xs - 1)) (ys ! (length xs - 1)))"

section \<open>Properties\<close>

subsection \<open>Indexed access\<close>

lemma Tuple_index_assign_same:
  "0 \<le> i \<Longrightarrow> i < int (length (mm t)) \<Longrightarrow>
   Tuple_index (t\<lparr>mm := (mm t)[nat i := v]\<rparr>) i = Some v"
  by (simp add: Tuple_index_def)

lemma Tuple_index_assign_other:
  "0 \<le> i \<Longrightarrow> j \<noteq> i \<Longrightarrow>
   Tuple_index (t\<lparr>mm := (mm t)[nat i := v]\<rparr>) j = Tuple_index t j"
  by (auto simp add: Tuple_index_def nth_list_update)

text \<open>
  Claim C8: an assignment through the mutable \<open>operator[]\<close> at a valid index \<open>i\<close>
  (\<open>0 \<le> i < SIZE\<close>) is defined, stores the value at position \<open>i\<close>, leaves every
  other position as it was, and the tuple keeps its size.
\<close>

theorem Tuple_assign_frame:
  assumes "Tuple_inv SIZE t" and "0 \<le> i" and "i < SIZE"
  shows "\<exists>t'. Tuple_assign t i v = Some t' \<and> Tuple_inv SIZE t' \<and>
           Tuple_index t' i = Some v \<and>
           (\<forall>j. j \<noteq> i \<longrightarrow> Tuple_index t' j = Tuple_index t j)"
proof -
  from assms have len: "i < int (length (mm t))"
    by (simp add: Tuple_inv_def)
  let ?t' = "t\<lparr>mm := (mm t)[nat i := v]\<rparr>"
  have "Tuple_assign t i v = Some ?t'"
    using assms(2) len by (simp add: Tuple_assign_def)
  moreover have "Tuple_inv SIZE ?t'"
    using assms(1) by (simp add: Tuple_inv_def)
  moreover have "Tuple_index ?t' i = Some v"
    using assms(2) len by (rule Tuple_index_assign_same)
  moreover have "\<forall>j. j \<noteq> i \<longrightarrow> Tuple_index ?t' j = Tuple_index t j"
    using assms(2) by (simp add: Tuple_index_assign_other)
  ultimately show ?thesis by blast
qed

theorem Tuple_assign_frame_witness:
  "Tuple_inv 3 \<lparr>mm = [1, 2, 3 :: 32 word]\<rparr> \<and> (0 :: int) \<le> 1 \<and> (1 :: int) < 3 \<and>
   Tuple_assign \<lparr>mm = [1, 2, 3 :: 32 word]\<rparr> 1 9 = Some \<lparr>mm = [1, 9, 3]\<rparr> \<and>
   Tuple_index \<lparr>mm = [1, 9, 3 :: 32 word]\<rparr> 0 = Some 1 \<and>
   Tuple_index \<lparr>mm = [1, 9, 3 :: 32 word]\<rparr> 1 = Some 9 \<and>
   Tuple_index \<lparr>mm = [1, 9, 3 :: 32 word]\<rparr> 2 = Some 3"
  using Tuple_assign_frame [of 3 "\<lparr>mm = [1, 2, 3 :: 32 word]\<rparr>" 1 9]
  by (simp add: Tuple_inv_def INT_MAX_def Tuple_assign_def Tuple_index_def)

subsection \<open>Conversion constructor\<close>

lemma conv_copy_result:
  "0 \<le> i \<Longrightarrow> i \<le> e \<Longrightarrow> e \<le> int (length (mm src)) \<Longrightarrow> e \<le> int (length (mm self)) \<Longrightarrow>
   conv_copy conv e i src self =
     Some (self\<lparr>mm := take (nat i) (mm self) @ map conv (drop (nat i) (take (nat e) (mm src)))
                      @ drop (nat e) (mm self)\<rparr>)"
proof (induction conv e i src self rule: conv_copy.induct)
  case (1 conv e i src self)
  show ?case
  proof (cases "i < e")
    case False
    with 1 have "i = e" by simp
    moreover have "conv_copy conv e e src self = Some self"
      by (subst conv_copy.simps) simp
    ultimately show ?thesis using 1 by simp
  next
    case True
    let ?v = "conv (mm src ! nat i)"
    let ?s = "self\<lparr>mm := (mm self)[nat i := ?v]\<rparr>"
    have ix: "Tuple_index src i = Some (mm src ! nat i)"
      using 1 True by (simp add: Tuple_index_def)
    have as: "Tuple_assign self i ?v = Some ?s"
      using 1 True by (simp add: Tuple_assign_def)
    have n: "nat (i + 1) = Suc (nat i)" using 1 by simp
    have lt: "nat i < nat e" "nat i < length (mm self)" "nat i < length (mm src)" "nat e \<le> length (mm src)"
      using 1 True by auto
    have IH: "conv_copy conv e (i + 1) src ?s =
       Some (?s\<lparr>mm := take (nat (i + 1)) (mm ?s) @ map conv (drop (nat (i + 1)) (take (nat e) (mm src)))
                      @ drop (nat e) (mm ?s)\<rparr>)"
      using 1 True ix as by (intro "1.IH"[OF True ix as]) auto
    have a: "take (Suc (nat i)) ((mm self)[nat i := ?v]) = take (nat i) (mm self) @ [?v]"
      using lt by (simp add: take_Suc_conv_app_nth)
    have b: "drop (nat i) (take (nat e) (mm src)) = mm src ! nat i # drop (Suc (nat i)) (take (nat e) (mm src))"
      using lt by (simp add: Cons_nth_drop_Suc[symmetric])
    have c: "drop (nat e) ((mm self)[nat i := ?v]) = drop (nat e) (mm self)"
      using lt by simp
    have step: "conv_copy conv e i src self = conv_copy conv e (i + 1) src ?s"
      by (subst conv_copy.simps) (simp add: True ix as)
    show ?thesis
      by (simp add: step IH n a b c)
  qed
qed

lemma conv_zero_result:
  "0 \<le> i \<Longrightarrow> i \<le> SIZE \<Longrightarrow> int (length (mm self)) = SIZE \<Longrightarrow>
   conv_zero SIZE i self = Some (self\<lparr>mm := take (nat i) (mm self) @ replicate (nat (SIZE - i)) 0\<rparr>)"
proof (induction SIZE i self rule: conv_zero.induct)
  case (1 SIZE i self)
  show ?case
  proof (cases "i < SIZE")
    case False
    with 1 have "i = SIZE" by simp
    moreover have "conv_zero SIZE SIZE self = Some self"
      by (subst conv_zero.simps) simp
    ultimately show ?thesis using 1 by simp
  next
    case True
    let ?s = "self\<lparr>mm := (mm self)[nat i := 0]\<rparr>"
    have as: "Tuple_assign self i 0 = Some ?s"
      using 1 True by (simp add: Tuple_assign_def)
    have n: "nat (i + 1) = Suc (nat i)" using 1 by simp
    have lt: "nat i < length (mm self)"
      using 1 True by auto
    have IH: "conv_zero SIZE (i + 1) ?s =
       Some (?s\<lparr>mm := take (nat (i + 1)) (mm ?s) @ replicate (nat (SIZE - (i + 1))) 0\<rparr>)"
      using 1 True as by (intro "1.IH"[OF True as]) auto
    have a: "take (Suc (nat i)) ((mm self)[nat i := 0]) = take (nat i) (mm self) @ [0]"
      using lt by (simp add: take_Suc_conv_app_nth)
    have r: "nat (SIZE - i) = Suc (nat (SIZE - (i + 1)))" using True by simp
    have step: "conv_zero SIZE i self = conv_zero SIZE (i + 1) ?s"
      by (subst conv_zero.simps) (simp add: True as)
    show ?thesis
      by (simp add: step IH n a r)
  qed
qed


lemma Tuple_convert_eq:
  assumes "Tuple_inv SIZE self" and "Tuple_inv src_size src"
  shows "Tuple_convert conv SIZE src_size src self =
           Some \<lparr>mm = map conv (take (nat SIZE) (mm src)) @ replicate (nat (SIZE - src_size)) 0\<rparr>"
proof -
  define e where "e = (if SIZE < src_size then SIZE else src_size)"
  define ys where "ys = map conv (take (nat e) (mm src))"
  have len: "int (length (mm self)) = SIZE" "int (length (mm src)) = src_size" "0 < SIZE" "0 < src_size"
    using assms by (simp_all add: Tuple_inv_def)
  have e: "0 \<le> e" "e \<le> SIZE" "e \<le> src_size"
    using len by (simp_all add: e_def)
  have lys: "length ys = nat e"
    using e len by (auto simp add: ys_def)
  have ys: "ys = map conv (take (nat SIZE) (mm src))"
    using len by (auto simp add: ys_def e_def)
  have r: "nat (SIZE - e) = nat (SIZE - src_size)"
    by (simp add: e_def)
  let ?s = "self\<lparr>mm := ys @ drop (nat e) (mm self)\<rparr>"
  have copy: "conv_copy conv e 0 src self = Some ?s"
    using conv_copy_result [of 0 e src self conv] e len by (simp add: ys_def)
  have "int (length (mm ?s)) = SIZE"
    using e len lys by auto
  with e have "conv_zero SIZE e ?s =
      Some (?s\<lparr>mm := take (nat e) (mm ?s) @ replicate (nat (SIZE - e)) 0\<rparr>)"
    by (intro conv_zero_result)
  then have zero: "conv_zero SIZE e ?s = Some \<lparr>mm = ys @ replicate (nat (SIZE - src_size)) 0\<rparr>"
    using lys by (simp add: r)
  have "Tuple_convert conv SIZE src_size src self =
      Some \<lparr>mm = ys @ replicate (nat (SIZE - src_size)) 0\<rparr>"
    unfolding Tuple_convert_def Let_def e_def [symmetric]
    by (simp only: copy zero option.case)
  then show ?thesis
    by (simp only: ys)
qed

text \<open>
  Claim C1: the converting constructor from a source of size \<open>src_size\<close> is defined
  and yields a tuple of size \<open>SIZE\<close> whose elements below \<open>min SIZE src_size\<close> are
  the converted source elements and whose elements from \<open>src_size\<close> on (when
  \<open>SIZE > src_size\<close>) are zero. Source elements from index \<open>SIZE\<close> on have no
  effect on the result, and neither have the indeterminate values the storage held
  before.
\<close>

theorem Tuple_convert_elements:
  assumes "Tuple_inv SIZE self" and "Tuple_inv src_size src"
  shows "\<exists>dest. Tuple_convert conv SIZE src_size src self = Some dest \<and> Tuple_inv SIZE dest \<and>
           (\<forall>i. 0 \<le> i \<and> i < min SIZE src_size \<longrightarrow>
                  Tuple_index src i \<noteq> None \<and>
                  Tuple_index dest i = map_option conv (Tuple_index src i)) \<and>
           (\<forall>i. src_size \<le> i \<and> i < SIZE \<longrightarrow> Tuple_index dest i = Some 0) \<and>
           (\<forall>src'. Tuple_inv src_size src' \<and> take (nat SIZE) (mm src') = take (nat SIZE) (mm src) \<longrightarrow>
                  Tuple_convert conv SIZE src_size src' self = Some dest) \<and>
           (\<forall>self'. Tuple_inv SIZE self' \<longrightarrow> Tuple_convert conv SIZE src_size src self' = Some dest)"
proof -
  let ?d = "\<lparr>mm = map conv (take (nat SIZE) (mm src)) @ replicate (nat (SIZE - src_size)) 0\<rparr>"
  have len: "int (length (mm self)) = SIZE" "int (length (mm src)) = src_size" "0 < SIZE" "0 < src_size"
    "SIZE \<le> INT_MAX"
    using assms by (simp_all add: Tuple_inv_def)
  have eq: "Tuple_convert conv SIZE src_size src self = Some ?d"
    using assms by (rule Tuple_convert_eq)
  have inv: "Tuple_inv SIZE ?d"
    using len by (auto simp add: Tuple_inv_def)
  have copied: "Tuple_index src i \<noteq> None \<and> Tuple_index ?d i = map_option conv (Tuple_index src i)"
    if "0 \<le> i \<and> i < min SIZE src_size" for i
  proof -
    have "nat i < length (take (nat SIZE) (mm src))"
      using that len by auto
    then have "(map conv (take (nat SIZE) (mm src)) @ replicate (nat (SIZE - src_size)) 0) ! nat i
        = conv (mm src ! nat i)"
      using that by (simp add: nth_append)
    then show ?thesis
      using that len by (auto simp add: Tuple_index_def)
  qed
  have zeroed: "Tuple_index ?d i = Some 0" if "src_size \<le> i \<and> i < SIZE" for i
  proof -
    have l: "length (take (nat SIZE) (mm src)) = nat src_size"
      using that len by auto
    have "(map conv (take (nat SIZE) (mm src)) @ replicate (nat (SIZE - src_size)) 0) ! nat i = 0"
      using that len l by (auto simp add: nth_append)
    then show ?thesis
      using that len by (auto simp add: Tuple_index_def)
  qed
  have trailing: "Tuple_convert conv SIZE src_size src' self = Some ?d"
    if "Tuple_inv src_size src' \<and> take (nat SIZE) (mm src') = take (nat SIZE) (mm src)" for src'
    using Tuple_convert_eq [of SIZE self src_size src' conv] assms(1) that by simp
  have storage: "Tuple_convert conv SIZE src_size src self' = Some ?d"
    if "Tuple_inv SIZE self'" for self'
    using that assms(2) by (rule Tuple_convert_eq)
  show ?thesis
  proof (intro exI [of _ ?d] conjI allI impI)
    show "Tuple_convert conv SIZE src_size src self = Some ?d" by (rule eq)
    show "Tuple_inv SIZE ?d" by (rule inv)
    show "Tuple_index src i \<noteq> None" if "0 \<le> i \<and> i < min SIZE src_size" for i
      using copied [OF that] by simp
    show "Tuple_index ?d i = map_option conv (Tuple_index src i)"
      if "0 \<le> i \<and> i < min SIZE src_size" for i
      using copied [OF that] by simp
    show "Tuple_index ?d i = Some 0" if "src_size \<le> i \<and> i < SIZE" for i
      using that by (rule zeroed)
    show "Tuple_convert conv SIZE src_size src' self = Some ?d"
      if "Tuple_inv src_size src' \<and> take (nat SIZE) (mm src') = take (nat SIZE) (mm src)" for src'
      using that by (rule trailing)
    show "Tuple_convert conv SIZE src_size src self' = Some ?d" if "Tuple_inv SIZE self'" for self'
      using that by (rule storage)
  qed
qed

theorem Tuple_convert_elements_witness:
  "Tuple_inv 3 \<lparr>mm = [7, 7, 7 :: 64 word]\<rparr> \<and> Tuple_inv 2 \<lparr>mm = [1, - 2 :: 32 word]\<rparr> \<and>
   Tuple_convert scast 3 2 \<lparr>mm = [1, - 2 :: 32 word]\<rparr> \<lparr>mm = [7, 7, 7 :: 64 word]\<rparr> =
     Some \<lparr>mm = [1, - 2, 0]\<rparr> \<and>
   Tuple_index \<lparr>mm = [1, - 2, 0 :: 64 word]\<rparr> 2 = Some 0 \<and>
   Tuple_convert scast 2 3 \<lparr>mm = [1, - 2, 3 :: 32 word]\<rparr> \<lparr>mm = [7, 7 :: 64 word]\<rparr> =
     Some \<lparr>mm = [1, - 2]\<rparr>"
proof -
  let ?self = "\<lparr>mm = [7, 7, 7 :: 64 word]\<rparr>" and ?src = "\<lparr>mm = [1, - 2 :: 32 word]\<rparr>"
  have h1: "Tuple_inv 3 ?self" and h2: "Tuple_inv 2 ?src"
    by (simp_all add: Tuple_inv_def INT_MAX_def)
  have widen: "Tuple_convert scast 3 2 ?src ?self = Some \<lparr>mm = [1, - 2, 0]\<rparr>"
    by (simp add: Tuple_convert_def conv_copy.simps conv_zero.simps Tuple_index_def Tuple_assign_def)
  have narrow: "Tuple_convert scast 2 3 \<lparr>mm = [1, - 2, 3 :: 32 word]\<rparr> \<lparr>mm = [7, 7 :: 64 word]\<rparr> =
      Some \<lparr>mm = [1, - 2]\<rparr>"
    by (simp add: Tuple_convert_def conv_copy.simps conv_zero.simps Tuple_index_def Tuple_assign_def)
  from Tuple_convert_elements [OF h1 h2, of scast] obtain dest where
    d: "Tuple_convert scast 3 2 ?src ?self = Some dest" and
    z: "\<forall>i. 2 \<le> i \<and> i < 3 \<longrightarrow> Tuple_index dest i = Some 0"
    by (elim exE conjE)
  from d widen have "dest = \<lparr>mm = [1, - 2, 0]\<rparr>"
    by simp
  with z have zero: "Tuple_index \<lparr>mm = [1, - 2, 0 :: 64 word]\<rparr> 2 = Some 0"
    by simp
  show ?thesis
    using h1 h2 widen zero narrow by simp
qed

subsection \<open>Ordering\<close>

lemma to_size_t_id: "0 \<le> x \<Longrightarrow> x \<le> INT_MAX \<Longrightarrow> to_size_t x = x"
  by (simp add: to_size_t_def INT_MAX_def)

lemma to_int_id: "0 \<le> x \<Longrightarrow> x \<le> INT_MAX \<Longrightarrow> to_int x = x"
  by (simp add: to_int_def INT_MAX_def)

lemma less_loop_result:
  "0 \<le> i \<Longrightarrow> i \<le> SIZE - 1 \<Longrightarrow> Tuple_inv SIZE t0 \<Longrightarrow> Tuple_inv SIZE t1 \<Longrightarrow>
   less_loop eq lt SIZE i t0 t1 =
     Some (case find (\<lambda>k. \<not> eq (mm t0 ! k) (mm t1 ! k)) [nat i..<nat (SIZE - 1)] of
             Some k \<Rightarrow> lt (mm t0 ! k) (mm t1 ! k)
           | None \<Rightarrow> lt (mm t0 ! nat (SIZE - 1)) (mm t1 ! nat (SIZE - 1)))"
proof (induction eq lt SIZE i t0 t1 rule: less_loop.induct)
  case (1 eq lt SIZE i t0 t1)
  have len: "int (length (mm t0)) = SIZE" "int (length (mm t1)) = SIZE" "0 < SIZE" "SIZE \<le> INT_MAX"
    using "1.prems" by (simp_all add: Tuple_inv_def)
  have B: "to_size_t (SIZE - 1) = SIZE - 1"
    using len by (intro to_size_t_id) simp_all
  have I: "to_int i = i"
    using "1.prems" len by (intro to_int_id) simp_all
  show ?case
  proof (cases "i < SIZE - 1")
    case False
    with "1.prems" have i: "i = SIZE - 1" by simp
    have "Tuple_index t0 (SIZE - 1) = Some (mm t0 ! nat (SIZE - 1))"
      "Tuple_index t1 (SIZE - 1) = Some (mm t1 ! nat (SIZE - 1))"
      using len by (simp_all add: Tuple_index_def)
    then have "less_loop eq lt SIZE (SIZE - 1) t0 t1 =
        Some (lt (mm t0 ! nat (SIZE - 1)) (mm t1 ! nat (SIZE - 1)))"
      by (subst less_loop.simps) (simp add: B)
    then show ?thesis by (simp add: i)
  next
    case True
    have ix: "Tuple_index t0 i = Some (mm t0 ! nat i)" "Tuple_index t1 i = Some (mm t1 ! nat i)"
      using "1.prems" True len by (simp_all add: Tuple_index_def)
    have u: "[nat i..<nat (SIZE - 1)] = nat i # [nat (i + 1)..<nat (SIZE - 1)]"
      using "1.prems" True by (simp add: upt_conv_Cons nat_add_distrib)
    show ?thesis
    proof (cases "eq (mm t0 ! nat i) (mm t1 ! nat i)")
      case False
      have "less_loop eq lt SIZE i t0 t1 = Some (lt (mm t0 ! nat i) (mm t1 ! nat i))"
        by (subst less_loop.simps) (simp add: B I True ix False)
      then show ?thesis by (simp add: u False)
    next
      case same: True
      have "less_loop eq lt SIZE i t0 t1 = less_loop eq lt SIZE (i + 1) t0 t1"
        by (subst less_loop.simps) (simp add: B I True ix same)
      also have "\<dots> = Some (case find (\<lambda>k. \<not> eq (mm t0 ! k) (mm t1 ! k)) [nat (i + 1)..<nat (SIZE - 1)] of
             Some k \<Rightarrow> lt (mm t0 ! k) (mm t1 ! k)
           | None \<Rightarrow> lt (mm t0 ! nat (SIZE - 1)) (mm t1 ! nat (SIZE - 1)))"
        using "1.prems" True ix same
        by (intro "1.IH" [of "Tuple_index t0 (to_int i)" "Tuple_index t1 (to_int i)"]) (simp_all add: B I)
      finally show ?thesis by (simp add: u same)
    qed
  qed
qed


lemma greater_loop_result:
  "0 \<le> i \<Longrightarrow> i \<le> SIZE - 1 \<Longrightarrow> Tuple_inv SIZE t0 \<Longrightarrow> Tuple_inv SIZE t1 \<Longrightarrow>
   greater_loop eq gt SIZE i t0 t1 =
     Some (case find (\<lambda>k. \<not> eq (mm t0 ! k) (mm t1 ! k)) [nat i..<nat (SIZE - 1)] of
             Some k \<Rightarrow> gt (mm t0 ! k) (mm t1 ! k)
           | None \<Rightarrow> gt (mm t0 ! nat (SIZE - 1)) (mm t1 ! nat (SIZE - 1)))"
proof (induction eq gt SIZE i t0 t1 rule: greater_loop.induct)
  case (1 eq gt SIZE i t0 t1)
  have len: "int (length (mm t0)) = SIZE" "int (length (mm t1)) = SIZE" "0 < SIZE" "SIZE \<le> INT_MAX"
    using "1.prems" by (simp_all add: Tuple_inv_def)
  have B: "to_size_t (SIZE - 1) = SIZE - 1"
    using len by (intro to_size_t_id) simp_all
  have I: "to_int i = i"
    using "1.prems" len by (intro to_int_id) simp_all
  show ?case
  proof (cases "i < SIZE - 1")
    case False
    with "1.prems" have i: "i = SIZE - 1" by simp
    have "Tuple_index t0 (SIZE - 1) = Some (mm t0 ! nat (SIZE - 1))"
      "Tuple_index t1 (SIZE - 1) = Some (mm t1 ! nat (SIZE - 1))"
      using len by (simp_all add: Tuple_index_def)
    then have "greater_loop eq gt SIZE (SIZE - 1) t0 t1 =
        Some (gt (mm t0 ! nat (SIZE - 1)) (mm t1 ! nat (SIZE - 1)))"
      by (subst greater_loop.simps) (simp add: B)
    then show ?thesis by (simp add: i)
  next
    case True
    have ix: "Tuple_index t0 i = Some (mm t0 ! nat i)" "Tuple_index t1 i = Some (mm t1 ! nat i)"
      using "1.prems" True len by (simp_all add: Tuple_index_def)
    have u: "[nat i..<nat (SIZE - 1)] = nat i # [nat (i + 1)..<nat (SIZE - 1)]"
      using "1.prems" True by (simp add: upt_conv_Cons nat_add_distrib)
    show ?thesis
    proof (cases "eq (mm t0 ! nat i) (mm t1 ! nat i)")
      case False
      have "greater_loop eq gt SIZE i t0 t1 = Some (gt (mm t0 ! nat i) (mm t1 ! nat i))"
        by (subst greater_loop.simps) (simp add: B I True ix False)
      then show ?thesis by (simp add: u False)
    next
      case same: True
      have "greater_loop eq gt SIZE i t0 t1 = greater_loop eq gt SIZE (i + 1) t0 t1"
        by (subst greater_loop.simps) (simp add: B I True ix same)
      also have "\<dots> = Some (case find (\<lambda>k. \<not> eq (mm t0 ! k) (mm t1 ! k)) [nat (i + 1)..<nat (SIZE - 1)] of
             Some k \<Rightarrow> gt (mm t0 ! k) (mm t1 ! k)
           | None \<Rightarrow> gt (mm t0 ! nat (SIZE - 1)) (mm t1 ! nat (SIZE - 1)))"
        using "1.prems" True ix same
        by (intro "1.IH" [of "Tuple_index t0 (to_int i)" "Tuple_index t1 (to_int i)"]) (simp_all add: B I)
      finally show ?thesis by (simp add: u same)
    qed
  qed
qed


lemma operator_less_eq:
  assumes "Tuple_inv SIZE t0" and "Tuple_inv SIZE t1"
  shows "operator_less eq lt SIZE t0 t1 = Some (first_difference eq lt (mm t0) (mm t1))"
proof -
  have n: "length (mm t0) - 1 = nat (SIZE - 1)" and "0 \<le> SIZE - 1"
    using assms by (auto simp add: Tuple_inv_def)
  then show ?thesis
    unfolding operator_less_def first_difference_def n
    using less_loop_result [of 0 SIZE t0 t1 eq lt] assms by simp
qed

lemma operator_greater_eq:
  assumes "Tuple_inv SIZE t0" and "Tuple_inv SIZE t1"
  shows "operator_greater eq gt SIZE t0 t1 = Some (first_difference eq gt (mm t0) (mm t1))"
proof -
  have n: "length (mm t0) - 1 = nat (SIZE - 1)" and "0 \<le> SIZE - 1"
    using assms by (auto simp add: Tuple_inv_def)
  then show ?thesis
    unfolding operator_greater_def first_difference_def n
    using greater_loop_result [of 0 SIZE t0 t1 eq gt] assms by simp
qed

lemma first_difference_at:
  assumes "i < length xs - 1" and "\<forall>j<i. eq (xs ! j) (ys ! j)" and "\<not> eq (xs ! i) (ys ! i)"
  shows "first_difference eq cmp xs ys = cmp (xs ! i) (ys ! i)"
proof -
  have "find (\<lambda>k. \<not> eq (xs ! k) (ys ! k)) [0..<length xs - 1] = Some i"
    using assms by (auto simp add: find_Some_iff)
  then show ?thesis by (simp add: first_difference_def)
qed

lemma first_difference_last:
  assumes "\<forall>j<length xs - 1. eq (xs ! j) (ys ! j)"
  shows "first_difference eq cmp xs ys = cmp (xs ! (length xs - 1)) (ys ! (length xs - 1))"
proof -
  have "find (\<lambda>k. \<not> eq (xs ! k) (ys ! k)) [0..<length xs - 1] = None"
    using assms by (auto simp add: find_None_iff)
  then show ?thesis by (simp add: first_difference_def)
qed

lemma first_difference_position:
  "\<exists>k. first_difference eq cmp xs ys = cmp (xs ! k) (ys ! k)"
  by (auto simp add: first_difference_def split: option.split)

lemma first_difference_mirror:
  assumes "\<forall>x y. eq' y x = eq x y" and "length xs = length ys"
  shows "\<exists>k. first_difference eq cmp xs ys = cmp (xs ! k) (ys ! k) \<and>
             first_difference eq' cmp' ys xs = cmp' (ys ! k) (xs ! k)"
proof -
  have "(\<lambda>k. \<not> eq' (ys ! k) (xs ! k)) = (\<lambda>k. \<not> eq (xs ! k) (ys ! k))"
    using assms(1) by simp
  then show ?thesis
    unfolding first_difference_def assms(2)
    by (cases "find (\<lambda>k. \<not> eq (xs ! k) (ys ! k)) [0..<length ys - 1]") auto
qed


text \<open>
  Claim C2: on two tuples of the same size, \<open>operator<\<close> is defined and is the
  lexicographic comparison: at the first position \<open>i\<close> among \<open>0 .. SIZE-2\<close> where the
  elements are not exactly equal the result is \<open>a[i] < b[i]\<close>; when all of these
  positions are exactly equal it is \<open>a[SIZE-1] < b[SIZE-1]\<close>; and a tuple is not less
  than itself when no element is less than itself.
\<close>

theorem operator_less_lexicographic:
  assumes "Tuple_inv SIZE a" and "Tuple_inv SIZE b"
  shows "operator_less eq lt SIZE a b = Some (first_difference eq lt (mm a) (mm b)) \<and>
    (\<forall>i. i < nat (SIZE - 1) \<and> (\<forall>j<i. eq (mm a ! j) (mm b ! j)) \<and> \<not> eq (mm a ! i) (mm b ! i) \<longrightarrow>
         operator_less eq lt SIZE a b = Some (lt (mm a ! i) (mm b ! i))) \<and>
    ((\<forall>j<nat (SIZE - 1). eq (mm a ! j) (mm b ! j)) \<longrightarrow>
         operator_less eq lt SIZE a b = Some (lt (mm a ! nat (SIZE - 1)) (mm b ! nat (SIZE - 1)))) \<and>
    ((\<forall>x. \<not> lt' x x) \<longrightarrow> operator_less eq' lt' SIZE a a = Some False)"
proof -
  have n: "length (mm a) - 1 = nat (SIZE - 1)" "length (mm a) - Suc 0 = nat (SIZE - 1)"
    using assms by (auto simp add: Tuple_inv_def)
  have r: "operator_less eq lt SIZE a b = Some (first_difference eq lt (mm a) (mm b))"
    using assms by (rule operator_less_eq)
  have first: "operator_less eq lt SIZE a b = Some (lt (mm a ! i) (mm b ! i))"
    if "i < nat (SIZE - 1) \<and> (\<forall>j<i. eq (mm a ! j) (mm b ! j)) \<and> \<not> eq (mm a ! i) (mm b ! i)" for i
    using that first_difference_at [of i "mm a" eq "mm b" lt] by (simp add: r n)
  have last: "operator_less eq lt SIZE a b = Some (lt (mm a ! nat (SIZE - 1)) (mm b ! nat (SIZE - 1)))"
    if "\<forall>j<nat (SIZE - 1). eq (mm a ! j) (mm b ! j)"
    using that first_difference_last [of "mm a" eq "mm b" lt] by (simp add: r n)
  have same: "operator_less eq' lt' SIZE a a = Some False" if "\<forall>x. \<not> lt' x x"
  proof -
    obtain k where "first_difference eq' lt' (mm a) (mm a) = lt' (mm a ! k) (mm a ! k)"
      using first_difference_position by blast
    with that have "\<not> first_difference eq' lt' (mm a) (mm a)" by simp
    then show ?thesis
      using operator_less_eq [OF assms(1) assms(1), of eq' lt'] by simp
  qed
  show ?thesis
  proof (intro conjI allI impI)
    show "operator_less eq lt SIZE a b = Some (first_difference eq lt (mm a) (mm b))" by (rule r)
    show "operator_less eq lt SIZE a b = Some (lt (mm a ! i) (mm b ! i))"
      if "i < nat (SIZE - 1) \<and> (\<forall>j<i. eq (mm a ! j) (mm b ! j)) \<and> \<not> eq (mm a ! i) (mm b ! i)" for i
      using that by (rule first)
    show "operator_less eq lt SIZE a b = Some (lt (mm a ! nat (SIZE - 1)) (mm b ! nat (SIZE - 1)))"
      if "\<forall>j<nat (SIZE - 1). eq (mm a ! j) (mm b ! j)"
      using that by (rule last)
    show "operator_less eq' lt' SIZE a a = Some False" if "\<forall>x. \<not> lt' x x"
      using that by (rule same)
  qed
qed

theorem operator_less_lexicographic_witness:
  "Tuple_inv 3 \<lparr>mm = [1, 2, 3 :: 32 word]\<rparr> \<and> Tuple_inv 3 \<lparr>mm = [1, 2, 4 :: 32 word]\<rparr> \<and>
   operator_less (=) less_int32 3 \<lparr>mm = [1, 2, 3]\<rparr> \<lparr>mm = [1, 2, 4]\<rparr> = Some True \<and>
   operator_less (=) less_int32 3 \<lparr>mm = [1, 2, 3]\<rparr> \<lparr>mm = [1, 2, 3]\<rparr> = Some False \<and>
   operator_less (=) less_int32 3 \<lparr>mm = [1, 2, 4]\<rparr> \<lparr>mm = [1, 2, 3]\<rparr> = Some False \<and>
   operator_less (=) less_int32 3 \<lparr>mm = [1, 5, 0]\<rparr> \<lparr>mm = [1, 3, 9]\<rparr> = Some False"
proof -
  let ?a = "\<lparr>mm = [1, 2, 3 :: 32 word]\<rparr>" and ?b = "\<lparr>mm = [1, 2, 4 :: 32 word]\<rparr>"
  have a: "Tuple_inv 3 ?a" and b: "Tuple_inv 3 ?b"
    by (simp_all add: Tuple_inv_def INT_MAX_def)
  note T = operator_less_lexicographic [OF a b, of "(=)" less_int32 less_int32 "(=)"]
  have "\<forall>j<nat (3 - 1). mm ?a ! j = mm ?b ! j"
    by (simp add: less_Suc_eq nat_numeral numeral_2_eq_2)
  then have "operator_less (=) less_int32 3 ?a ?b =
      Some (less_int32 (mm ?a ! nat (3 - 1)) (mm ?b ! nat (3 - 1)))"
    by (rule T [THEN conjunct2, THEN conjunct2, THEN conjunct1, THEN mp])
  then have r1: "operator_less (=) less_int32 3 ?a ?b = Some True"
    by (simp add: less_int32_def)
  have "\<forall>x. \<not> less_int32 x x"
    by (simp add: less_int32_def)
  then have r2: "operator_less (=) less_int32 3 ?a ?a = Some False"
    by (rule T [THEN conjunct2, THEN conjunct2, THEN conjunct2, THEN mp])
  have r3: "operator_less (=) less_int32 3 ?b ?a = Some False"
    "operator_less (=) less_int32 3 \<lparr>mm = [1, 5, 0]\<rparr> \<lparr>mm = [1, 3, 9]\<rparr> = Some False"
    by (simp_all add: operator_less_def less_loop.simps to_size_t_def to_int_def Tuple_index_def
        less_int32_def)
  show ?thesis
    using a b r1 r2 r3 by simp
qed

text \<open>
  Claim C5: when exact equality of elements is symmetric and no two elements are
  less than each other, \<open>a < b\<close> and \<open>b < a\<close> are both defined and never both true.
\<close>

theorem operator_less_asymmetric:
  assumes "Tuple_inv SIZE a" and "Tuple_inv SIZE b"
    and "\<forall>x y. eq' y x = eq x y" and "\<forall>x y. \<not> (lt x y \<and> lt' y x)"
  shows "\<exists>r s. operator_less eq lt SIZE a b = Some r \<and> operator_less eq' lt' SIZE b a = Some s \<and>
           \<not> (r \<and> s)"
proof -
  have "length (mm a) = length (mm b)"
    using assms(1,2) by (simp add: Tuple_inv_def)
  with assms(3) obtain k where
    k: "first_difference eq lt (mm a) (mm b) = lt (mm a ! k) (mm b ! k)"
       "first_difference eq' lt' (mm b) (mm a) = lt' (mm b ! k) (mm a ! k)"
    using first_difference_mirror [of eq' eq "mm a" "mm b" lt lt'] by blast
  have "\<not> (lt (mm a ! k) (mm b ! k) \<and> lt' (mm b ! k) (mm a ! k))"
    using assms(4) by simp
  then have "\<not> (first_difference eq lt (mm a) (mm b) \<and> first_difference eq' lt' (mm b) (mm a))"
    by (simp add: k)
  then show ?thesis
    using operator_less_eq [OF assms(1) assms(2), of eq lt]
      operator_less_eq [OF assms(2) assms(1), of eq' lt'] by simp
qed

theorem operator_less_asymmetric_witness:
  "Tuple_inv 3 \<lparr>mm = [1, 2, 3 :: 32 word]\<rparr> \<and> Tuple_inv 3 \<lparr>mm = [1, 2, 4 :: 32 word]\<rparr> \<and>
   (\<forall>x y :: 32 word. (y = x) = (x = y)) \<and> (\<forall>x y. \<not> (less_int32 x y \<and> less_int32 y x)) \<and>
   operator_less (=) less_int32 3 \<lparr>mm = [1, 2, 3]\<rparr> \<lparr>mm = [1, 2, 4]\<rparr> = Some True \<and>
   operator_less (=) less_int32 3 \<lparr>mm = [1, 2, 4]\<rparr> \<lparr>mm = [1, 2, 3]\<rparr> \<noteq> Some True"
proof -
  let ?a = "\<lparr>mm = [1, 2, 3 :: 32 word]\<rparr>" and ?b = "\<lparr>mm = [1, 2, 4 :: 32 word]\<rparr>"
  have a: "Tuple_inv 3 ?a" and b: "Tuple_inv 3 ?b"
    by (simp_all add: Tuple_inv_def INT_MAX_def)
  have sym: "\<forall>x y :: 32 word. (y = x) = (x = y)"
    by auto
  have asym: "\<forall>x y. \<not> (less_int32 x y \<and> less_int32 y x)"
    by (simp add: less_int32_def)
  have r1: "operator_less (=) less_int32 3 ?a ?b = Some True"
    by (simp add: operator_less_def less_loop.simps to_size_t_def to_int_def Tuple_index_def
        less_int32_def)
  from operator_less_asymmetric [OF a b sym asym] r1
  have r2: "operator_less (=) less_int32 3 ?b ?a \<noteq> Some True"
    by auto
  show ?thesis
    using a b sym asym r1 r2 by simp
qed

text \<open>
  Claim C9: when \<open>x > y\<close> on elements is \<open>y < x\<close> and exact equality is symmetric,
  \<open>a > b\<close> is \<open>b < a\<close>. Both operators are the same scan of the positions, with the
  same test of exact equality, and differ in the element comparison only.
\<close>

theorem operator_greater_mirror:
  assumes "Tuple_inv SIZE a" and "Tuple_inv SIZE b"
    and "\<forall>x y. gt x y = lt y x" and "\<forall>x y. eq' y x = eq x y"
  shows "operator_greater eq gt SIZE a b = operator_less eq' lt SIZE b a \<and>
         operator_greater eq gt SIZE a b = Some (first_difference eq gt (mm a) (mm b)) \<and>
         operator_less eq lt2 SIZE a b = Some (first_difference eq lt2 (mm a) (mm b))"
proof -
  have "length (mm a) = length (mm b)"
    using assms(1,2) by (simp add: Tuple_inv_def)
  with assms(4) obtain k where
    k: "first_difference eq gt (mm a) (mm b) = gt (mm a ! k) (mm b ! k)"
       "first_difference eq' lt (mm b) (mm a) = lt (mm b ! k) (mm a ! k)"
    using first_difference_mirror [of eq' eq "mm a" "mm b" gt lt] by blast
  have "first_difference eq gt (mm a) (mm b) = first_difference eq' lt (mm b) (mm a)"
    using assms(3) by (simp add: k)
  then show ?thesis
    using operator_greater_eq [OF assms(1) assms(2), of eq gt]
      operator_less_eq [OF assms(2) assms(1), of eq' lt]
      operator_less_eq [OF assms(1) assms(2), of eq lt2] by simp
qed

theorem operator_greater_mirror_witness:
  "Tuple_inv 3 \<lparr>mm = [1, 2, 4 :: 32 word]\<rparr> \<and> Tuple_inv 3 \<lparr>mm = [1, 2, 3 :: 32 word]\<rparr> \<and>
   (\<forall>x y. greater_int32 x y = less_int32 y x) \<and>
   operator_less (=) less_int32 3 \<lparr>mm = [1, 2, 3]\<rparr> \<lparr>mm = [1, 2, 4]\<rparr> = Some True \<and>
   operator_greater (=) greater_int32 3 \<lparr>mm = [1, 2, 4]\<rparr> \<lparr>mm = [1, 2, 3]\<rparr> = Some True"
proof -
  let ?a = "\<lparr>mm = [1, 2, 3 :: 32 word]\<rparr>" and ?b = "\<lparr>mm = [1, 2, 4 :: 32 word]\<rparr>"
  have a: "Tuple_inv 3 ?a" and b: "Tuple_inv 3 ?b"
    by (simp_all add: Tuple_inv_def INT_MAX_def)
  have sym: "\<forall>x y :: 32 word. (y = x) = (x = y)"
    by auto
  have flip: "\<forall>x y. greater_int32 x y = less_int32 y x"
    by (simp add: less_int32_def greater_int32_def)
  have r1: "operator_less (=) less_int32 3 ?a ?b = Some True"
    by (simp add: operator_less_def less_loop.simps to_size_t_def to_int_def Tuple_index_def
        less_int32_def)
  from operator_greater_mirror [OF b a flip sym, of less_int32] r1
  have r2: "operator_greater (=) greater_int32 3 ?b ?a = Some True"
    by simp
  show ?thesis
    using a b flip r1 r2 by simp
qed

subsection \<open>String representation\<close>

lemma separated_Cons:
  "separated sep (map fmt (x # xs)) = fmt x @ concat (map (\<lambda>y. sep @ fmt y) xs)"
  by (induction xs arbitrary: x) simp_all

lemma to_unsigned_SIZE: "0 \<le> SIZE \<Longrightarrow> SIZE \<le> INT_MAX \<Longrightarrow> to_unsigned SIZE = SIZE"
  by (simp add: to_unsigned_def INT_MAX_def)

lemma str_loop_result:
  "1 \<le> j \<Longrightarrow> j \<le> SIZE \<Longrightarrow> Tuple_inv SIZE t \<Longrightarrow>
   str_loop fmt SIZE j t buffer =
     Some (buffer @ concat (map (\<lambda>y. '', '' @ fmt y) (drop (nat j) (mm t))))"
proof (induction fmt SIZE j t buffer rule: str_loop.induct)
  case (1 fmt SIZE j t buffer)
  have len: "int (length (mm t)) = SIZE" and U: "to_unsigned SIZE = SIZE"
    using "1.prems" by (simp_all add: Tuple_inv_def to_unsigned_SIZE)
  show ?case
  proof (cases "j < SIZE")
    case False
    with "1.prems" have "j = SIZE" by simp
    moreover have "str_loop fmt SIZE SIZE t buffer = Some buffer"
      by (subst str_loop.simps) (simp add: U)
    ultimately show ?thesis using len by simp
  next
    case True
    have ix: "Tuple_index t j = Some (mm t ! nat j)"
      using "1.prems" True len by (simp add: Tuple_index_def)
    have step: "str_loop fmt SIZE j t buffer =
        str_loop fmt SIZE (j + 1) t ((buffer @ '', '') @ fmt (mm t ! nat j))"
      using "1.prems" True by (subst str_loop.simps) (simp add: U ix)
    have IH: "str_loop fmt SIZE (j + 1) t ((buffer @ '', '') @ fmt (mm t ! nat j)) =
        Some (((buffer @ '', '') @ fmt (mm t ! nat j)) @
              concat (map (\<lambda>y. '', '' @ fmt y) (drop (nat (j + 1)) (mm t))))"
      using "1.IH" [of "mm t ! nat j"] "1.prems" True ix by (simp add: U)
    have n: "nat (j + 1) = Suc (nat j)" using "1.prems" by simp
    have d: "drop (nat j) (mm t) = mm t ! nat j # drop (Suc (nat j)) (mm t)"
      using "1.prems" True len by (simp add: Cons_nth_drop_Suc)
    show ?thesis
      unfolding step IH by (simp add: n d)
  qed
qed

lemma Tuple_str_eq:
  assumes "Tuple_inv SIZE t"
  shows "Tuple_str fmt SIZE t =
    Some (''['' @ fmt (hd (mm t)) @ concat (map (\<lambda>y. '', '' @ fmt y) (tl (mm t))) @ '']'')"
proof -
  have len: "int (length (mm t)) = SIZE" "0 < SIZE" and U: "to_unsigned SIZE = SIZE"
    using assms by (simp_all add: Tuple_inv_def to_unsigned_SIZE)
  have ix: "Tuple_index t 0 = Some (hd (mm t))"
    using len by (auto simp add: Tuple_index_def hd_conv_nth)
  have "str_loop fmt SIZE 0 t ''['' = str_loop fmt SIZE (0 + 1) t (''['' @ fmt (hd (mm t)))"
    using len by (subst str_loop.simps) (simp add: U ix)
  also have "\<dots> = Some ((''['' @ fmt (hd (mm t))) @
      concat (map (\<lambda>y. '', '' @ fmt y) (drop (nat (0 + 1)) (mm t))))"
    using len assms by (intro str_loop_result) simp_all
  finally show ?thesis
    by (simp add: Tuple_str_def drop_Suc)
qed

lemma Tuple_str_separated:
  assumes "Tuple_inv SIZE t"
  shows "Tuple_str fmt SIZE t = Some (''['' @ separated '', '' (map fmt (mm t)) @ '']'')"
proof -
  from assms have "mm t \<noteq> []"
    by (auto simp add: Tuple_inv_def)
  then obtain x xs where xs: "mm t = x # xs"
    by (cases "mm t") auto
  show ?thesis
    unfolding Tuple_str_eq [OF assms] xs separated_Cons by simp
qed

lemma length_concat_separators:
  "length (concat (map (\<lambda>y. CHR '','' # CHR '' '' # fmt y) xs)) =
     2 * length xs + sum_list (map (\<lambda>y. length (fmt y)) xs)"
  by (induction xs) simp_all

theorem Tuple_ostream_insert_width_counterexample:
  "Tuple_str fmt_int32 3 \<lparr>mm = [1, 2, 3]\<rparr> = Some ''[1, 2, 3]'' \<and>
   Tuple_ostream_insert fmt_int32 3
     \<lparr>rdstate = {}, exceptions = {}, written = ''t = '', os_width = 12, os_fill = CHR ''*'',
      os_left = False\<rparr>
     \<lparr>mm = [1, 2, 3]\<rparr> =
   Some (Returned
     \<lparr>rdstate = {}, exceptions = {}, written = ''t = ***[1, 2, 3]'', os_width = 0,
      os_fill = CHR ''*'', os_left = False\<rparr>) \<and>
   ''t = ***[1, 2, 3]'' \<noteq> ''t = '' @ ''[1, 2, 3]'' \<and>
   Tuple_ostream_insert fmt_int32 3
     \<lparr>rdstate = {failbit}, exceptions = {}, written = ''t = '', os_width = 0, os_fill = CHR '' '',
      os_left = False\<rparr>
     \<lparr>mm = [1, 2, 3]\<rparr> =
   Some (Returned
     \<lparr>rdstate = {failbit}, exceptions = {}, written = ''t = '', os_width = 0, os_fill = CHR '' '',
      os_left = False\<rparr>) \<and>
   ''t = '' \<noteq> ''t = '' @ ''[1, 2, 3]''"
proof -
  have "Tuple_inv 3 \<lparr>mm = [1, 2, 3 :: 32 word]\<rparr>"
    by (simp add: Tuple_inv_def INT_MAX_def)
  then have "Tuple_str fmt_int32 3 \<lparr>mm = [1, 2, 3]\<rparr> =
      Some (''['' @ separated '', '' (map fmt_int32 (mm \<lparr>mm = [1, 2, 3 :: 32 word]\<rparr>)) @ '']'')"
    by (rule Tuple_str_separated)
  then have s: "Tuple_str fmt_int32 3 \<lparr>mm = [1, 2, 3]\<rparr> = Some ''[1, 2, 3]''"
    by (simp add: fmt_int32_def fmt_int_def dec_digits.simps digit_char_def)
  show ?thesis
    by (simp add: s Tuple_ostream_insert_def ostream_insert_string_def setstate_def
        numeral_eq_Suc)
qed

text \<open>
  Claim C6, as amended: \<open>str()\<close> is defined and returns \<open>[\<close>, the textual
  representations of the elements in index order separated by \<open>, \<close> and \<open>]\<close>; the
  \<open>int\<close> tuple with elements 1, 2, 3 gives \<open>[1, 2, 3]\<close>. The stream output operator
  appends exactly this string on a stream that is good and whose field width is not
  larger than the length of the string (the default width is 0).
\<close>

theorem Tuple_str_format:
  assumes "Tuple_inv SIZE t"
  shows "Tuple_str fmt SIZE t = Some (''['' @ separated '', '' (map fmt (mm t)) @ '']'') \<and>
         (\<exists>s. Tuple_str fmt SIZE t = Some s \<and>
            (\<forall>ostr. rdstate ostr = {} \<and> os_width ostr \<le> length s \<longrightarrow>
               Tuple_ostream_insert fmt SIZE ostr t =
                 Some (Returned (ostr\<lparr>written := written ostr @ s, os_width := 0\<rparr>)))) \<and>
         Tuple_str fmt_int32 3 \<lparr>mm = [1, 2, 3]\<rparr> = Some ''[1, 2, 3]''"
proof -
  let ?s = "''['' @ separated '', '' (map fmt (mm t)) @ '']''"
  have s: "Tuple_str fmt SIZE t = Some ?s"
    using assms by (rule Tuple_str_separated)
  have ins: "Tuple_ostream_insert fmt SIZE ostr t =
      Some (Returned (ostr\<lparr>written := written ostr @ ?s, os_width := 0\<rparr>))"
    if "rdstate ostr = {} \<and> os_width ostr \<le> length ?s" for ostr
    using that by (simp add: Tuple_ostream_insert_def s ostream_insert_string_def)
  have "Tuple_inv 3 \<lparr>mm = [1, 2, 3 :: 32 word]\<rparr>"
    by (simp add: Tuple_inv_def INT_MAX_def)
  then have "Tuple_str fmt_int32 3 \<lparr>mm = [1, 2, 3]\<rparr> =
      Some (''['' @ separated '', '' (map fmt_int32 (mm \<lparr>mm = [1, 2, 3 :: 32 word]\<rparr>)) @ '']'')"
    by (rule Tuple_str_separated)
  then have e: "Tuple_str fmt_int32 3 \<lparr>mm = [1, 2, 3]\<rparr> = Some ''[1, 2, 3]''"
    by (simp add: fmt_int32_def fmt_int_def dec_digits.simps digit_char_def)
  show ?thesis
  proof (intro conjI)
    show "Tuple_str fmt SIZE t = Some ?s" by (rule s)
    show "\<exists>s. Tuple_str fmt SIZE t = Some s \<and>
            (\<forall>ostr. rdstate ostr = {} \<and> os_width ostr \<le> length s \<longrightarrow>
               Tuple_ostream_insert fmt SIZE ostr t =
                 Some (Returned (ostr\<lparr>written := written ostr @ s, os_width := 0\<rparr>)))"
      using s ins by (intro exI [of _ ?s] conjI allI impI)
    show "Tuple_str fmt_int32 3 \<lparr>mm = [1, 2, 3]\<rparr> = Some ''[1, 2, 3]''" by (rule e)
  qed
qed

theorem Tuple_str_format_witness:
  "Tuple_inv 2 \<lparr>mm = [- 40, 7 :: 32 word]\<rparr> \<and>
   Tuple_str fmt_int32 2 \<lparr>mm = [- 40, 7]\<rparr> = Some ''[-40, 7]'' \<and>
   Tuple_ostream_insert fmt_int32 2
     \<lparr>rdstate = {}, exceptions = {failbit}, written = ''t = '', os_width = 5, os_fill = CHR '' '',
      os_left = False\<rparr>
     \<lparr>mm = [- 40, 7]\<rparr> =
   Some (Returned
     \<lparr>rdstate = {}, exceptions = {failbit}, written = ''t = [-40, 7]'', os_width = 0,
      os_fill = CHR '' '', os_left = False\<rparr>)"
proof -
  let ?os = "\<lparr>rdstate = {}, exceptions = {failbit}, written = ''t = '', os_width = 5,
      os_fill = CHR '' '', os_left = False\<rparr>"
  have h: "Tuple_inv 2 \<lparr>mm = [- 40, 7 :: 32 word]\<rparr>"
    by (simp add: Tuple_inv_def INT_MAX_def)
  from Tuple_str_format [OF h, of fmt_int32] obtain s where
    s: "Tuple_str fmt_int32 2 \<lparr>mm = [- 40, 7]\<rparr> = Some s"
      "Tuple_str fmt_int32 2 \<lparr>mm = [- 40, 7]\<rparr> =
         Some (''['' @ separated '', '' (map fmt_int32 (mm \<lparr>mm = [- 40, 7 :: 32 word]\<rparr>)) @ '']'')" and
    ins: "\<forall>ostr. rdstate ostr = {} \<and> os_width ostr \<le> length s \<longrightarrow>
        Tuple_ostream_insert fmt_int32 2 ostr \<lparr>mm = [- 40, 7]\<rparr> =
          Some (Returned (ostr\<lparr>written := written ostr @ s, os_width := 0\<rparr>))"
    by (elim conjE exE)
  from s(2) have str: "Tuple_str fmt_int32 2 \<lparr>mm = [- 40, 7]\<rparr> = Some ''[-40, 7]''"
    by (simp add: fmt_int32_def fmt_int_def dec_digits.simps digit_char_def)
  with s(1) have v: "s = ''[-40, 7]''"
    by simp
  have "rdstate ?os = {} \<and> os_width ?os \<le> length s"
    by (simp add: v)
  then have "Tuple_ostream_insert fmt_int32 2 ?os \<lparr>mm = [- 40, 7]\<rparr> =
      Some (Returned (?os\<lparr>written := written ?os @ s, os_width := 0\<rparr>))"
    by (rule ins [THEN spec, THEN mp])
  then show ?thesis
    using h str by (simp add: v)
qed

text \<open>
  Claim C10: for \<open>SIZE = 1\<close> the string is \<open>[\<close>, the element and \<open>]\<close>. For every
  size it is \<open>[\<close>, the first element, then for each of the \<open>SIZE - 1\<close> further
  elements a separator followed by that element, then \<open>]\<close>: each separator stands
  between two elements, and the length of the string counts \<open>SIZE - 1\<close> separators
  of two characters.
\<close>

theorem Tuple_str_separators:
  assumes "Tuple_inv SIZE t"
  shows "(SIZE = 1 \<longrightarrow> Tuple_str fmt SIZE t = Some (''['' @ fmt (hd (mm t)) @ '']'')) \<and>
         Tuple_str fmt SIZE t =
           Some (''['' @ fmt (hd (mm t)) @ concat (map (\<lambda>y. '', '' @ fmt y) (tl (mm t))) @ '']'') \<and>
         int (length (tl (mm t))) = SIZE - 1 \<and>
         (\<exists>s. Tuple_str fmt SIZE t = Some s \<and>
              int (length s) = 2 + 2 * (SIZE - 1) + int (sum_list (map (\<lambda>y. length (fmt y)) (mm t))))"
proof -
  have len: "int (length (mm t)) = SIZE" "0 < SIZE"
    using assms by (simp_all add: Tuple_inv_def)
  then obtain x xs where xs: "mm t = x # xs"
    by (cases "mm t") auto
  have s: "Tuple_str fmt SIZE t =
      Some (''['' @ fmt (hd (mm t)) @ concat (map (\<lambda>y. '', '' @ fmt y) (tl (mm t))) @ '']'')"
    using assms by (rule Tuple_str_eq)
  have one: "Tuple_str fmt SIZE t = Some (''['' @ fmt (hd (mm t)) @ '']'')" if "SIZE = 1"
    unfolding s using that len xs by simp
  have n: "int (length (tl (mm t))) = SIZE - 1"
    using len xs by simp
  have "int (length (''['' @ fmt (hd (mm t)) @ concat (map (\<lambda>y. '', '' @ fmt y) (tl (mm t))) @ '']'')) =
      2 + 2 * (SIZE - 1) + int (sum_list (map (\<lambda>y. length (fmt y)) (mm t)))"
    using len xs by (simp add: length_concat_separators)
  with s one n show ?thesis
    by simp
qed

theorem Tuple_str_separators_witness:
  "Tuple_inv 1 \<lparr>mm = [7 :: 32 word]\<rparr> \<and> Tuple_str fmt_int32 1 \<lparr>mm = [7]\<rparr> = Some ''[7]'' \<and>
   Tuple_inv 3 \<lparr>mm = [10, 20, 30 :: 32 word]\<rparr> \<and>
   Tuple_str fmt_int32 3 \<lparr>mm = [10, 20, 30]\<rparr> = Some ''[10, 20, 30]''"
proof -
  have h1: "Tuple_inv 1 \<lparr>mm = [7 :: 32 word]\<rparr>" and h3: "Tuple_inv 3 \<lparr>mm = [10, 20, 30 :: 32 word]\<rparr>"
    by (simp_all add: Tuple_inv_def INT_MAX_def)
  have "Tuple_str fmt_int32 1 \<lparr>mm = [7]\<rparr> = Some (''['' @ fmt_int32 (hd (mm \<lparr>mm = [7 :: 32 word]\<rparr>)) @ '']'')"
    using Tuple_str_separators [OF h1, of fmt_int32] by simp
  then have r1: "Tuple_str fmt_int32 1 \<lparr>mm = [7]\<rparr> = Some ''[7]''"
    by (simp add: fmt_int32_def fmt_int_def dec_digits.simps digit_char_def)
  have r3: "Tuple_str fmt_int32 3 \<lparr>mm = [10, 20, 30]\<rparr> = Some ''[10, 20, 30]''"
    using Tuple_str_separators [OF h3, of fmt_int32]
    by (simp add: fmt_int32_def fmt_int_def dec_digits.simps digit_char_def)
  show ?thesis
    using h1 h3 r1 r3 by simp
qed

subsection \<open>Absolute value\<close>















subsection \<open>Binary serialization\<close>

lemma length_concat_bytes:
  "\<forall>x. length (to_bytes x) = sz \<Longrightarrow> length (concat (map to_bytes xs)) = sz * length xs"
  by (induction xs) simp_all

lemma chunk_concat_bytes:
  "\<forall>x. length (to_bytes x) = sz \<Longrightarrow> k < length xs \<Longrightarrow>
   take sz (drop (k * sz) (concat (map to_bytes xs))) = to_bytes (xs ! k)"
proof (induction xs arbitrary: k)
  case Nil
  then show ?case by simp
next
  case (Cons x xs)
  show ?case
  proof (cases k)
    case 0
    with Cons.prems show ?thesis by simp
  next
    case (Suc m)
    with Cons.prems have "m < length xs" by simp
    then have "take sz (drop (m * sz) (concat (map to_bytes xs))) = to_bytes (xs ! m)"
      using Cons.prems(1) by (intro Cons.IH)
    moreover have "drop (Suc m * sz) (to_bytes x @ concat (map to_bytes xs)) =
        drop (m * sz) (concat (map to_bytes xs))"
      using Cons.prems(1) by simp
    ultimately show ?thesis
      using Suc by simp
  qed
qed

lemma object_bytes_length:
  "object_repr sz to_bytes from_bytes \<Longrightarrow> Tuple_inv SIZE t \<Longrightarrow>
   length (object_bytes to_bytes t) = sz * nat SIZE"
  using length_concat_bytes [of to_bytes sz "mm t"]
  by (auto simp add: object_repr_def object_bytes_def Tuple_inv_def)

lemma store_object_bytes:
  assumes "object_repr sz to_bytes from_bytes" and "Tuple_inv SIZE t"
  shows "store_bytes from_bytes sz SIZE (object_bytes to_bytes t) = t"
proof -
  have len: "length (mm t) = nat SIZE"
    using assms(2) by (auto simp add: Tuple_inv_def)
  have r: "\<forall>x. length (to_bytes x) = sz" "\<forall>x. from_bytes (to_bytes x) = x"
    using assms(1) by (simp_all add: object_repr_def)
  have "map (\<lambda>k. from_bytes (take sz (drop (k * sz) (concat (map to_bytes (mm t)))))) [0..<length (mm t)]
      = map (\<lambda>k. mm t ! k) [0..<length (mm t)]"
    using r by (intro map_cong refl) (simp add: chunk_concat_bytes)
  also have "\<dots> = mm t"
    by (rule map_nth)
  finally show ?thesis
    by (simp add: store_bytes_def object_bytes_def len)
qed

lemma bytes_of_int:
  fixes u :: int
  assumes "0 \<le> u" and "u < 2 ^ 32"
  shows "u mod 256 + 256 * (u div 256 mod 256) + 65536 * (u div 65536 mod 256)
           + 16777216 * (u div 16777216 mod 256) = u"
proof -
  define a where "a = u div 256"
  define b where "b = a div 256"
  define c where "c = b div 256"
  have b: "u div 65536 = b"
    unfolding b_def a_def by (simp add: zdiv_zmult2_eq)
  have c: "u div 16777216 = c"
    unfolding c_def b_def a_def by (simp add: zdiv_zmult2_eq)
  have "0 \<le> c" "c < 256"
    using assms by (simp_all add: c [symmetric])
  then have cm: "c mod 256 = c"
    by simp
  have "u = 256 * a + u mod 256" "a = 256 * b + a mod 256" "b = 256 * c + b mod 256"
    by (simp_all add: a_def b_def c_def)
  then show ?thesis
    unfolding b c cm a_def [symmetric] by linarith
qed

lemma int32_from_to_bytes: "int32_from_bytes (int32_to_bytes w) = w"
proof -
  define u where "u = uint w"
  have bytes: "(of_char (int32_to_bytes w ! 0) :: int) = u mod 256"
    "(of_char (int32_to_bytes w ! 1) :: int) = u div 256 mod 256"
    "(of_char (int32_to_bytes w ! 2) :: int) = u div 65536 mod 256"
    "(of_char (int32_to_bytes w ! 3) :: int) = u div 16777216 mod 256"
    by (simp_all add: int32_to_bytes_def u_def)
  have "0 \<le> u" "u < 2 ^ 32"
    using uint_lt2p [of w] by (simp_all add: u_def)
  then have sum: "u mod 256 + 256 * (u div 256 mod 256) + 65536 * (u div 65536 mod 256)
           + 16777216 * (u div 16777216 mod 256) = u"
    by (rule bytes_of_int)
  have "int32_from_bytes (int32_to_bytes w) =
      word_of_int (u mod 256 + 256 * (u div 256 mod 256) + 65536 * (u div 65536 mod 256)
           + 16777216 * (u div 16777216 mod 256))"
    unfolding int32_from_bytes_def bytes by simp
  also have "\<dots> = word_of_int u"
    by (simp only: sum)
  also have "\<dots> = w"
    by (simp add: u_def)
  finally show ?thesis .
qed

lemma object_repr_int32: "object_repr 4 int32_to_bytes int32_from_bytes"
  by (simp add: object_repr_def int32_from_to_bytes) (simp add: int32_to_bytes_def)

text \<open>
  Claim C4: for an element type whose values are recovered from their bytes in
  memory, \<open>write\<close> appends exactly \<open>sizeof(T)*SIZE\<close> bytes to the output, and
  \<open>read\<close> on a good input stream that holds these bytes next, into any tuple of
  the same size and element type, returns, yields the tuple that was written and
  consumes exactly these bytes, whatever the exception mask of the stream.
\<close>

theorem Tuple_write_read_roundtrip:
  assumes "object_repr sizeofT to_bytes from_bytes" and "Tuple_inv SIZE t" and "Tuple_inv SIZE u"
  shows "\<exists>bs. Tuple_write to_bytes sizeofT SIZE os t = os @ bs \<and>
              length bs = sizeofT * nat SIZE \<and>
              Tuple_read to_bytes from_bytes sizeofT SIZE
                \<lparr>rdstate = {}, exceptions = ex, unread = bs @ rest\<rparr> u =
              Returned (t, \<lparr>rdstate = {}, exceptions = ex, unread = rest\<rparr>)"
proof -
  let ?bs = "object_bytes to_bytes t"
  have lt: "length ?bs = sizeofT * nat SIZE" and lu: "length (object_bytes to_bytes u) = sizeofT * nat SIZE"
    using assms by (simp_all add: object_bytes_length)
  have w: "Tuple_write to_bytes sizeofT SIZE os t = os @ ?bs"
    using lt by (simp add: Tuple_write_def ostream_write_def)
  have rd: "istream_read \<lparr>rdstate = {}, exceptions = ex, unread = ?bs @ rest\<rparr> (sizeofT * nat SIZE) =
      (?bs, Returned \<lparr>rdstate = {}, exceptions = ex, unread = rest\<rparr>)"
    using lt by (simp add: istream_read_def)
  have "Tuple_read to_bytes from_bytes sizeofT SIZE
      \<lparr>rdstate = {}, exceptions = ex, unread = ?bs @ rest\<rparr> u =
      Returned (store_bytes from_bytes sizeofT SIZE ?bs, \<lparr>rdstate = {}, exceptions = ex, unread = rest\<rparr>)"
    unfolding Tuple_read_def rd using lt lu by simp
  then have r: "Tuple_read to_bytes from_bytes sizeofT SIZE
      \<lparr>rdstate = {}, exceptions = ex, unread = ?bs @ rest\<rparr> u =
      Returned (t, \<lparr>rdstate = {}, exceptions = ex, unread = rest\<rparr>)"
    using assms(1,2) by (simp add: store_object_bytes)
  from w lt r show ?thesis
    by (intro exI [of _ ?bs] conjI)
qed

theorem Tuple_write_read_roundtrip_witness:
  "object_repr 4 int32_to_bytes int32_from_bytes \<and>
   Tuple_inv 3 \<lparr>mm = [1, - 2, 3 :: 32 word]\<rparr> \<and> Tuple_inv 3 \<lparr>mm = [0, 0, 0 :: 32 word]\<rparr> \<and>
   Tuple_write int32_to_bytes 4 3 [] \<lparr>mm = [1, - 2, 3]\<rparr> =
     [CHR 0x01, CHR 0x00, CHR 0x00, CHR 0x00, CHR 0xFE, CHR 0xFF, CHR 0xFF, CHR 0xFF,
      CHR 0x03, CHR 0x00, CHR 0x00, CHR 0x00] \<and>
   Tuple_read int32_to_bytes int32_from_bytes 4 3
     \<lparr>rdstate = {}, exceptions = {eofbit, failbit, badbit},
      unread = Tuple_write int32_to_bytes 4 3 [] \<lparr>mm = [1, - 2, 3]\<rparr>\<rparr>
     \<lparr>mm = [0, 0, 0]\<rparr> =
   Returned (\<lparr>mm = [1, - 2, 3]\<rparr>,
             \<lparr>rdstate = {}, exceptions = {eofbit, failbit, badbit}, unread = []\<rparr>)"
proof -
  let ?t = "\<lparr>mm = [1, - 2, 3 :: 32 word]\<rparr>" and ?u = "\<lparr>mm = [0, 0, 0 :: 32 word]\<rparr>"
  have t: "Tuple_inv 3 ?t" and u: "Tuple_inv 3 ?u"
    by (simp_all add: Tuple_inv_def INT_MAX_def)
  have w: "Tuple_write int32_to_bytes 4 3 [] ?t =
     [CHR 0x01, CHR 0x00, CHR 0x00, CHR 0x00, CHR 0xFE, CHR 0xFF, CHR 0xFF, CHR 0xFF,
      CHR 0x03, CHR 0x00, CHR 0x00, CHR 0x00]"
    by (simp add: Tuple_write_def ostream_write_def object_bytes_def int32_to_bytes_def char_of_def)
  from Tuple_write_read_roundtrip [OF object_repr_int32 t u, of "[]" "{eofbit, failbit, badbit}" "[]"]
  have r: "Tuple_read int32_to_bytes int32_from_bytes 4 3
     \<lparr>rdstate = {}, exceptions = {eofbit, failbit, badbit},
      unread = Tuple_write int32_to_bytes 4 3 [] ?t\<rparr> ?u =
     Returned (?t, \<lparr>rdstate = {}, exceptions = {eofbit, failbit, badbit}, unread = []\<rparr>)"
    by auto
  show ?thesis
    using object_repr_int32 t u w r by simp
qed

lemma store_bytes_index:
  "0 \<le> i \<Longrightarrow> i < SIZE \<Longrightarrow>
   Tuple_index (store_bytes from_bytes sz SIZE bs) i =
     Some (from_bytes (take sz (drop (nat i * sz) bs)))"
  by (simp add: store_bytes_def Tuple_index_def)

lemma state_of_setstate [simp]:
  "state_of (setstate flags s) = s\<lparr>rdstate := rdstate s \<union> flags\<rparr>"
  by (simp add: setstate_def Let_def)

lemma is_Returned_setstate [simp]:
  "is_Returned (setstate flags s) \<longleftrightarrow> (rdstate s \<union> flags) \<inter> exceptions s = {}"
  by (simp add: setstate_def Let_def)

lemma istream_read_cases:
  assumes "istream_read inp n = (got, c)"
  shows "length got \<le> n"
    and "exceptions (state_of c) = exceptions inp"
    and "is_Returned c \<longleftrightarrow> rdstate (state_of c) \<inter> exceptions inp = {}"
    and "failbit \<in> rdstate (state_of c) \<longleftrightarrow> rdstate inp \<noteq> {} \<or> length (unread inp) < n"
    and "got = (if rdstate inp \<noteq> {} then [] else take n (unread inp))"
proof -
  consider (bad) "rdstate inp \<noteq> {}"
    | (full) "rdstate inp = {}" "n \<le> length (unread inp)"
    | (short) "rdstate inp = {}" "length (unread inp) < n"
    by linarith
  then have "length got \<le> n \<and> exceptions (state_of c) = exceptions inp \<and>
      (is_Returned c \<longleftrightarrow> rdstate (state_of c) \<inter> exceptions inp = {}) \<and>
      (failbit \<in> rdstate (state_of c) \<longleftrightarrow> rdstate inp \<noteq> {} \<or> length (unread inp) < n) \<and>
      got = (if rdstate inp \<noteq> {} then [] else take n (unread inp))"
  proof cases
    case bad
    with assms have "got = []" "c = setstate {failbit} inp"
      by (simp_all add: istream_read_def)
    with bad show ?thesis by simp
  next
    case full
    with assms have "got = take n (unread inp)" "c = Returned (inp\<lparr>unread := drop n (unread inp)\<rparr>)"
      by (simp_all add: istream_read_def)
    with full show ?thesis by simp
  next
    case short
    with assms have "got = unread inp" "c = setstate {eofbit, failbit} (inp\<lparr>unread := []\<rparr>)"
      by (simp_all add: istream_read_def)
    with short show ?thesis by simp
  qed
  then show "length got \<le> n"
    and "exceptions (state_of c) = exceptions inp"
    and "is_Returned c \<longleftrightarrow> rdstate (state_of c) \<inter> exceptions inp = {}"
    and "failbit \<in> rdstate (state_of c) \<longleftrightarrow> rdstate inp \<noteq> {} \<or> length (unread inp) < n"
    and "got = (if rdstate inp \<noteq> {} then [] else take n (unread inp))"
    by simp_all
qed


lemma Tuple_read_state:
  assumes "istream_read inp (sizeofT * nat SIZE) = (got, c)"
  shows "state_of (Tuple_read to_bytes from_bytes sizeofT SIZE inp t) =
           (store_bytes from_bytes sizeofT SIZE (got @ drop (length got) (object_bytes to_bytes t)),
            state_of c)"
    and "is_Returned (Tuple_read to_bytes from_bytes sizeofT SIZE inp t) = is_Returned c"
  by (cases c; simp add: Tuple_read_def assms Let_def)+

theorem Tuple_read_exception_counterexample:
  "Tuple_read int32_to_bytes int32_from_bytes 4 3
     \<lparr>rdstate = {}, exceptions = {failbit},
      unread = [CHR 0x09, CHR 0x00, CHR 0x00, CHR 0x00, CHR 0x07, CHR 0x00]\<rparr>
     \<lparr>mm = [1, 2, 3]\<rparr> =
   Thrown (\<lparr>mm = [9, 7, 3]\<rparr>, \<lparr>rdstate = {eofbit, failbit}, exceptions = {failbit}, unread = []\<rparr>) \<and>
   \<not> is_Returned (Tuple_read int32_to_bytes int32_from_bytes 4 3
     \<lparr>rdstate = {}, exceptions = {failbit},
      unread = [CHR 0x09, CHR 0x00, CHR 0x00, CHR 0x00, CHR 0x07, CHR 0x00]\<rparr>
     \<lparr>mm = [1, 2, 3]\<rparr>)"
proof -
  let ?inp = "\<lparr>rdstate = {}, exceptions = {failbit},
      unread = [CHR 0x09, CHR 0x00, CHR 0x00, CHR 0x00, CHR 0x07, CHR 0x00]\<rparr>"
  have rd: "istream_read ?inp (4 * nat 3) =
      ([CHR 0x09, CHR 0x00, CHR 0x00, CHR 0x00, CHR 0x07, CHR 0x00],
       Thrown \<lparr>rdstate = {eofbit, failbit}, exceptions = {failbit}, unread = []\<rparr>)"
    by (simp add: istream_read_def setstate_def)
  have "Tuple_read int32_to_bytes int32_from_bytes 4 3 ?inp \<lparr>mm = [1, 2, 3]\<rparr> =
      Thrown (\<lparr>mm = [9, 7, 3]\<rparr>, \<lparr>rdstate = {eofbit, failbit}, exceptions = {failbit}, unread = []\<rparr>)"
    unfolding Tuple_read_def rd
    by (simp add: store_bytes_def object_bytes_def int32_to_bytes_def int32_from_bytes_def
        upt_conv_Cons nat_numeral char_of_def)
  then show ?thesis
    by simp
qed

text \<open>
  Claim C7, as amended: \<open>read\<close> does not check the number of bytes obtained and has
  no failure indication of its own. For every input stream whose exception mask is
  empty (the default), also one that supplies fewer than \<open>sizeof(T)*SIZE\<close> bytes,
  \<open>read\<close> returns; it is left by the stream's exception exactly when a state flag
  that the stream sets is in the exception mask. In both cases, with \<open>got\<close> the
  bytes that the stream delivered, the elements whose bytes all lie within \<open>got\<close>
  are the values of those bytes, the elements whose bytes all lie behind \<open>got\<close> keep
  their values, an element in between holds its delivered bytes followed by its
  old remaining bytes, and the size stays \<open>SIZE\<close>. A short read shows in the state
  of the stream only.
\<close>

theorem Tuple_read_unchecked:
  assumes "object_repr sizeofT to_bytes from_bytes" and "Tuple_inv SIZE t"
  shows "\<exists>got c t' inp'.
           istream_read inp (sizeofT * nat SIZE) = (got, c) \<and>
           state_of (Tuple_read to_bytes from_bytes sizeofT SIZE inp t) = (t', inp') \<and>
           inp' = state_of c \<and>
           (exceptions inp = {} \<longrightarrow>
              Tuple_read to_bytes from_bytes sizeofT SIZE inp t = Returned (t', inp')) \<and>
           (is_Returned (Tuple_read to_bytes from_bytes sizeofT SIZE inp t) \<longleftrightarrow>
              rdstate inp' \<inter> exceptions inp = {}) \<and>
           length got \<le> sizeofT * nat SIZE \<and>
           Tuple_inv SIZE t' \<and>
           (\<forall>i. 0 \<le> i \<and> (nat i + 1) * sizeofT \<le> length got \<longrightarrow>
                Tuple_index t' i = Some (from_bytes (take sizeofT (drop (nat i * sizeofT) got)))) \<and>
           (\<forall>i. 0 \<le> i \<and> i < SIZE \<and> length got \<le> nat i * sizeofT \<longrightarrow>
                Tuple_index t' i = Tuple_index t i) \<and>
           (\<forall>i. 0 \<le> i \<and> i < SIZE \<and> nat i * sizeofT \<le> length got \<and>
                length got \<le> (nat i + 1) * sizeofT \<longrightarrow>
                Tuple_index t' i =
                  Some (from_bytes (drop (nat i * sizeofT) got @
                          drop (length got - nat i * sizeofT) (to_bytes (mm t ! nat i))))) \<and>
           (failbit \<in> rdstate inp' \<longleftrightarrow>
              rdstate inp \<noteq> {} \<or> length (unread inp) < sizeofT * nat SIZE)"
proof -
  define n where "n = sizeofT * nat SIZE"
  define old where "old = object_bytes to_bytes t"
  obtain got c where rd: "istream_read inp n = (got, c)"
    by (cases "istream_read inp n")
  define t' where "t' = store_bytes from_bytes sizeofT SIZE (got @ drop (length got) old)"
  define inp' where "inp' = state_of c"
  define res where "res = Tuple_read to_bytes from_bytes sizeofT SIZE inp t"
  have r: "0 < sizeofT" "\<forall>x. length (to_bytes x) = sizeofT" "\<forall>x. from_bytes (to_bytes x) = x"
    using assms(1) by (simp_all add: object_repr_def)
  have len: "length (mm t) = nat SIZE" "0 < SIZE" "SIZE \<le> INT_MAX"
    using assms(2) by (auto simp add: Tuple_inv_def)
  have lold: "length old = n"
    using assms by (simp add: old_def n_def object_bytes_length)
  note rc = istream_read_cases [OF rd]
  have lgot: "length got \<le> n"
    by (rule rc(1))
  have st: "state_of res = (t', inp')" and ret: "is_Returned res = is_Returned c"
    using Tuple_read_state [OF rd [unfolded n_def], of to_bytes from_bytes t]
    by (simp_all add: res_def t'_def inp'_def old_def)
  have mask: "is_Returned res \<longleftrightarrow> rdstate inp' \<inter> exceptions inp = {}"
    using rc(3) by (simp add: ret inp'_def)
  have normal: "res = Returned (t', inp')" if "exceptions inp = {}"
  proof -
    from that mask have "is_Returned res" by simp
    then show ?thesis
      using st by (cases res) simp_all
  qed
  have inv: "Tuple_inv SIZE t'"
    using len by (simp add: Tuple_inv_def t'_def store_bytes_def)
  have covered: "Tuple_index t' i = Some (from_bytes (take sizeofT (drop (nat i * sizeofT) got)))"
    if "0 \<le> i \<and> (nat i + 1) * sizeofT \<le> length got" for i
  proof -
    have "(nat i + 1) * sizeofT \<le> nat SIZE * sizeofT"
      using that lgot by (simp add: n_def mult.commute)
    then have "nat i + 1 \<le> nat SIZE"
      using r(1) by (simp only: mult_le_cancel2)
    then have i: "i < SIZE"
      using that by linarith
    have "nat i * sizeofT + sizeofT \<le> length got"
      using that by (simp add: algebra_simps)
    then have "take sizeofT (drop (nat i * sizeofT) (got @ drop (length got) old)) =
        take sizeofT (drop (nat i * sizeofT) got)"
      by simp
    then show ?thesis
      using that i by (simp add: t'_def store_bytes_index)
  qed
  have chunk: "take sizeofT (drop (nat i * sizeofT) old) = to_bytes (mm t ! nat i)"
    if "0 \<le> i \<and> i < SIZE" for i
  proof -
    have "nat i < length (mm t)"
      using that len by auto
    then show ?thesis
      using chunk_concat_bytes [OF r(2)] by (simp add: old_def object_bytes_def)
  qed
  have kept: "Tuple_index t' i = Tuple_index t i"
    if "0 \<le> i \<and> i < SIZE \<and> length got \<le> nat i * sizeofT" for i
  proof -
    have k: "nat i < length (mm t)"
      using that len by auto
    have "drop (nat i * sizeofT) (got @ drop (length got) old) = drop (nat i * sizeofT) old"
      using that by simp
    then have "take sizeofT (drop (nat i * sizeofT) (got @ drop (length got) old)) =
        to_bytes (mm t ! nat i)"
      using chunk [of i] that by simp
    then have "Tuple_index t' i = Some (mm t ! nat i)"
      using that r(3) by (simp add: t'_def store_bytes_index)
    then show ?thesis
      using that k by (simp add: Tuple_index_def)
  qed
  have between: "Tuple_index t' i =
      Some (from_bytes (drop (nat i * sizeofT) got @
              drop (length got - nat i * sizeofT) (to_bytes (mm t ! nat i))))"
    if "0 \<le> i \<and> i < SIZE \<and> nat i * sizeofT \<le> length got \<and> length got \<le> (nat i + 1) * sizeofT"
    for i
  proof -
    define a where "a = nat i * sizeofT"
    define g where "g = length got"
    have ag: "a \<le> g" "g \<le> a + sizeofT"
      using that by (simp_all add: a_def g_def algebra_simps)
    have "drop (g - a) (to_bytes (mm t ! nat i)) = drop (g - a) (take sizeofT (drop a old))"
      using chunk [of i] that by (simp add: a_def)
    also have "\<dots> = take (sizeofT - (g - a)) (drop (g - a) (drop a old))"
      by (simp add: drop_take)
    also have "\<dots> = take (sizeofT - (g - a)) (drop g old)"
      using ag by simp
    finally have tail: "take (sizeofT - (g - a)) (drop g old) =
        drop (g - a) (to_bytes (mm t ! nat i))"
      by simp
    have "take sizeofT (drop a (got @ drop g old)) =
        drop a got @ take (sizeofT - (g - a)) (drop g old)"
      using ag by (simp add: g_def)
    then have "take sizeofT (drop (nat i * sizeofT) (got @ drop (length got) old)) =
        drop (nat i * sizeofT) got @
        drop (length got - nat i * sizeofT) (to_bytes (mm t ! nat i))"
      by (simp only: tail) (simp add: a_def g_def)
    then show ?thesis
      using that by (simp add: t'_def store_bytes_index)
  qed
  have fail: "failbit \<in> rdstate inp' \<longleftrightarrow> rdstate inp \<noteq> {} \<or> length (unread inp) < n"
    using rc(4) by (simp add: inp'_def)
  show ?thesis
    unfolding n_def [symmetric] res_def [symmetric]
  proof (intro exI [of _ got] exI [of _ c] exI [of _ t'] exI [of _ inp'] conjI allI impI)
    show "istream_read inp n = (got, c)" by (rule rd)
    show "state_of res = (t', inp')" by (rule st)
    show "inp' = state_of c" by (rule inp'_def)
    show "res = Returned (t', inp')" if "exceptions inp = {}"
      using that by (rule normal)
    show "is_Returned res \<longleftrightarrow> rdstate inp' \<inter> exceptions inp = {}" by (rule mask)
    show "length got \<le> n" by (rule lgot)
    show "Tuple_inv SIZE t'" by (rule inv)
    show "Tuple_index t' i = Some (from_bytes (take sizeofT (drop (nat i * sizeofT) got)))"
      if "0 \<le> i \<and> (nat i + 1) * sizeofT \<le> length got" for i
      using that by (rule covered)
    show "Tuple_index t' i = Tuple_index t i"
      if "0 \<le> i \<and> i < SIZE \<and> length got \<le> nat i * sizeofT" for i
      using that by (rule kept)
    show "Tuple_index t' i =
        Some (from_bytes (drop (nat i * sizeofT) got @
                drop (length got - nat i * sizeofT) (to_bytes (mm t ! nat i))))"
      if "0 \<le> i \<and> i < SIZE \<and> nat i * sizeofT \<le> length got \<and>
          length got \<le> (nat i + 1) * sizeofT" for i
      using that by (rule between)
    show "failbit \<in> rdstate inp' \<longleftrightarrow> rdstate inp \<noteq> {} \<or> length (unread inp) < n" by (rule fail)
  qed
qed


theorem Tuple_read_unchecked_witness:
  "object_repr 4 int32_to_bytes int32_from_bytes \<and> Tuple_inv 3 \<lparr>mm = [1, 2, 3 :: 32 word]\<rparr> \<and>
   Tuple_read int32_to_bytes int32_from_bytes 4 3
     \<lparr>rdstate = {}, exceptions = {},
      unread = [CHR 0x09, CHR 0x00, CHR 0x00, CHR 0x00, CHR 0x07, CHR 0x00]\<rparr>
     \<lparr>mm = [1, 2, 3]\<rparr> =
   Returned (\<lparr>mm = [9, 7, 3]\<rparr>, \<lparr>rdstate = {eofbit, failbit}, exceptions = {}, unread = []\<rparr>) \<and>
   Tuple_index \<lparr>mm = [9, 7, 3 :: 32 word]\<rparr> 2 = Tuple_index \<lparr>mm = [1, 2, 3]\<rparr> 2 \<and>
   Tuple_index \<lparr>mm = [9, 7, 3 :: 32 word]\<rparr> 1 =
     Some (int32_from_bytes [CHR 0x07, CHR 0x00, CHR 0x00, CHR 0x00])"
proof -
  let ?t = "\<lparr>mm = [1, 2, 3 :: 32 word]\<rparr>"
  let ?inp = "\<lparr>rdstate = {}, exceptions = {},
      unread = [CHR 0x09, CHR 0x00, CHR 0x00, CHR 0x00, CHR 0x07, CHR 0x00]\<rparr>"
  let ?read = "Tuple_read int32_to_bytes int32_from_bytes 4 3 ?inp ?t"
  have t: "Tuple_inv 3 ?t"
    by (simp add: Tuple_inv_def INT_MAX_def)
  have rd: "istream_read ?inp (4 * nat 3) =
      ([CHR 0x09, CHR 0x00, CHR 0x00, CHR 0x00, CHR 0x07, CHR 0x00],
       Returned \<lparr>rdstate = {eofbit, failbit}, exceptions = {}, unread = []\<rparr>)"
    by (simp add: istream_read_def setstate_def)
  have run: "?read =
      Returned (\<lparr>mm = [9, 7, 3]\<rparr>, \<lparr>rdstate = {eofbit, failbit}, exceptions = {}, unread = []\<rparr>)"
    unfolding Tuple_read_def rd
    by (simp add: store_bytes_def object_bytes_def int32_to_bytes_def int32_from_bytes_def
        upt_conv_Cons nat_numeral char_of_def)
  from Tuple_read_unchecked [OF object_repr_int32 t, of ?inp] obtain got c t' inp' where
    r: "istream_read ?inp (4 * nat 3) = (got, c)"
      "state_of ?read = (t', inp')"
      "\<forall>i. 0 \<le> i \<and> i < 3 \<and> length got \<le> nat i * 4 \<longrightarrow> Tuple_index t' i = Tuple_index ?t i"
      "\<forall>i. 0 \<le> i \<and> i < 3 \<and> nat i * 4 \<le> length got \<and> length got \<le> (nat i + 1) * 4 \<longrightarrow>
          Tuple_index t' i =
            Some (int32_from_bytes (drop (nat i * 4) got @
                    drop (length got - nat i * 4) (int32_to_bytes (mm ?t ! nat i))))"
    by (elim exE conjE)
  from r(2) run have t': "t' = \<lparr>mm = [9, 7, 3]\<rparr>"
    by simp
  from r(1) rd have got: "got = [CHR 0x09, CHR 0x00, CHR 0x00, CHR 0x00, CHR 0x07, CHR 0x00]"
    by simp
  have "0 \<le> (2 :: int) \<and> (2 :: int) < 3 \<and> length got \<le> nat 2 * 4"
    by (simp add: got)
  then have "Tuple_index t' 2 = Tuple_index ?t 2"
    by (rule r(3) [THEN spec, THEN mp])
  then have kept: "Tuple_index \<lparr>mm = [9, 7, 3 :: 32 word]\<rparr> 2 = Tuple_index ?t 2"
    by (simp only: t')
  have "0 \<le> (1 :: int) \<and> (1 :: int) < 3 \<and> nat 1 * 4 \<le> length got \<and> length got \<le> (nat 1 + 1) * 4"
    by (simp add: got)
  then have "Tuple_index t' 1 =
      Some (int32_from_bytes (drop (nat 1 * 4) got @
              drop (length got - nat 1 * 4) (int32_to_bytes (mm ?t ! nat 1))))"
    by (rule r(4) [THEN spec, THEN mp])
  moreover have "int32_to_bytes 2 = [CHR 0x02, CHR 0x00, CHR 0x00, CHR 0x00]"
    by (simp add: int32_to_bytes_def char_of_def)
  ultimately have between: "Tuple_index \<lparr>mm = [9, 7, 3 :: 32 word]\<rparr> 1 =
      Some (int32_from_bytes [CHR 0x07, CHR 0x00, CHR 0x00, CHR 0x00])"
    by (simp add: t' got)
  show ?thesis
    using object_repr_int32 t run kept between by simp
qed

end
